theory Spec2Isabelle
  imports Main "HOL-Library.Word" "HOL-Library.Monad_Syntax"
begin

section \<open>adlist.c: a generic doubly linked list\<close>

text \<open>
  The embedding follows \<^verbatim>\<open>src/adlist.c\<close> statement by statement over an explicit
  store. Pointers are 64-bit words (LP64) and \<open>NULL\<close> is the word 0. The store has one
  typed heap per struct: list nodes, list headers and iterators. Reading or writing
  through a pointer that is not allocated in the heap of its type is undefined behaviour
  in C; in the model the operation then has no result (\<open>None\<close>). Arithmetic on
  \<^verbatim>\<open>unsigned long\<close> and \<^verbatim>\<open>long\<close> is arithmetic on \<open>64 word\<close>, so it wraps.
\<close>

type_synonym ptr = "64 word"
type_synonym cint = "32 word"

abbreviation NULL :: ptr where
  "NULL \<equiv> 0"

text \<open>
  Modelled from the spec: \<^verbatim>\<open>adlist.h\<close> is not under src/. The three structs have the
  fields that the spec's data model lists and that \<^verbatim>\<open>adlist.c\<close> reads and writes. The
  callbacks are C function pointers (a null pointer is \<open>None\<close>); they run caller code,
  whose effects fall on a caller-owned world \<open>'w\<close> and never on the list's own nodes.
  \<^verbatim>\<open>dup\<close> signals failure by returning \<open>NULL\<close>, \<^verbatim>\<open>match\<close> returns a C truth value.
  The struct \<^verbatim>\<open>list\<close> is the record \<open>list_t\<close> (\<open>list\<close> is HOL's type of lists), and the
  field \<^verbatim>\<open>next\<close> of \<^verbatim>\<open>listIter\<close> is \<open>it_next\<close> (\<open>next\<close> is the field of \<open>listNode\<close>).
  The store is the record \<open>state\<close>; \<open>nodes\<close>, \<open>headers\<close> and \<open>iters\<close> are its three
  heaps and \<open>world\<close> is the callbacks' world.
\<close>

record listNode =
  prev :: ptr
  "next" :: ptr
  "value" :: ptr

record listIter =
  it_next :: ptr
  direction :: cint

record 'w list_t =
  head :: ptr
  tail :: ptr
  dup :: "(ptr \<Rightarrow> 'w \<Rightarrow> ptr \<times> 'w) option"
  free :: "(ptr \<Rightarrow> 'w \<Rightarrow> 'w) option"
  match :: "(ptr \<Rightarrow> ptr \<Rightarrow> 'w \<Rightarrow> cint \<times> 'w) option"
  len :: "64 word"

record 'w state =
  nodes :: "ptr \<rightharpoonup> listNode"
  headers :: "ptr \<rightharpoonup> 'w list_t"
  iters :: "ptr \<rightharpoonup> listIter"
  world :: 'w

text \<open>
  Modelled from the spec: the direction constants of \<^verbatim>\<open>adlist.h\<close> (not under src/);
  the spec names the two directions forward and backward. The code only compares a
  direction with \<^verbatim>\<open>AL_START_HEAD\<close>, so all that matters is that the two constants
  differ.
\<close>

definition AL_START_HEAD :: cint where
  "AL_START_HEAD = 0"

definition AL_START_TAIL :: cint where
  "AL_START_TAIL = 1"

subsection \<open>Store access\<close>

text \<open>\<^verbatim>\<open>p->field = ...\<close> on a node, a list header, an iterator.\<close>

definition upd_node :: "ptr \<Rightarrow> (listNode \<Rightarrow> listNode) \<Rightarrow> 'w state \<Rightarrow> 'w state option" where
  "upd_node p f s =
     (case nodes s p of None \<Rightarrow> None
      | Some n \<Rightarrow> Some (s\<lparr>nodes := (nodes s)(p \<mapsto> f n)\<rparr>))"

definition upd_list :: "ptr \<Rightarrow> ('w list_t \<Rightarrow> 'w list_t) \<Rightarrow> 'w state \<Rightarrow> 'w state option" where
  "upd_list p f s =
     (case headers s p of None \<Rightarrow> None
      | Some L \<Rightarrow> Some (s\<lparr>headers := (headers s)(p \<mapsto> f L)\<rparr>))"

text \<open>\<^verbatim>\<open>if (list->free) list->free(v)\<close>.\<close>

definition call_free :: "'w list_t \<Rightarrow> ptr \<Rightarrow> 'w state \<Rightarrow> 'w state" where
  "call_free L v s = (case free L of None \<Rightarrow> s | Some f \<Rightarrow> s\<lparr>world := f v (world s)\<rparr>)"

text \<open>\<^verbatim>\<open>zfree(node)\<close>.\<close>

definition zfree_node :: "ptr \<Rightarrow> 'w state \<Rightarrow> 'w state" where
  "zfree_node p s = s\<lparr>nodes := (nodes s)(p := None)\<rparr>"

subsection \<open>Creation and teardown\<close>

text \<open>
  \<^verbatim>\<open>zmalloc\<close> (\<^verbatim>\<open>zmalloc.h\<close>, not under src/) is a parameter of every function that
  calls it: the argument \<open>zm\<close> is the pointer the call returned, \<open>NULL\<close> when the
  allocation failed.
\<close>

definition listCreate :: "ptr \<Rightarrow> 'w state \<Rightarrow> 'w state \<times> ptr" where
  "listCreate zm s =
     (if zm = NULL then (s, NULL)
      else (s\<lparr>headers := (headers s)(zm \<mapsto>
              \<lparr>head = NULL, tail = NULL, dup = None, free = None, match = None, len = 0\<rparr>)\<rparr>, zm))"

text \<open>The loop \<^verbatim>\<open>while(len--)\<close> of \<^verbatim>\<open>listEmpty\<close>: \<open>n\<close> is the local \<^verbatim>\<open>len\<close>.\<close>

function listEmpty_loop :: "ptr \<Rightarrow> 64 word \<Rightarrow> ptr \<Rightarrow> 'w state \<Rightarrow> 'w state option" where
  "listEmpty_loop lp n current s =
     (if n = 0 then Some s
      else do {
        c \<leftarrow> nodes s current;
        L \<leftarrow> headers s lp;
        listEmpty_loop lp (n - 1) (next c) (zfree_node current (call_free L (value c) s))
      })"
  by pat_completeness auto
termination
  by (relation "measure (\<lambda>(lp, n, current, s). unat n)") (auto simp: unat_minus_one unat_gt_0)

definition listEmpty :: "'w state \<Rightarrow> ptr \<Rightarrow> 'w state option" where
  "listEmpty s lp = do {
     L \<leftarrow> headers s lp;
     s1 \<leftarrow> listEmpty_loop lp (len L) (head L) s;
     s2 \<leftarrow> upd_list lp (\<lambda>L. L\<lparr>head := NULL, tail := NULL\<rparr>) s1;
     upd_list lp (\<lambda>L. L\<lparr>len := 0\<rparr>) s2
   }"

definition listRelease :: "'w state \<Rightarrow> ptr \<Rightarrow> 'w state option" where
  "listRelease s lp = do {
     s1 \<leftarrow> listEmpty s lp;
     Some (s1\<lparr>headers := (headers s1)(lp := None)\<rparr>)
   }"

subsection \<open>Insertion\<close>

definition listAddNodeHead :: "ptr \<Rightarrow> 'w state \<Rightarrow> ptr \<Rightarrow> ptr \<Rightarrow> ('w state \<times> ptr) option" where
  "listAddNodeHead zm s lp v =
     (if zm = NULL then Some (s, NULL)
      else do {
        L \<leftarrow> headers s lp;
        s3 \<leftarrow> (if len L = 0 then do {
                 s1 \<leftarrow> upd_list lp (\<lambda>L. L\<lparr>head := zm, tail := zm\<rparr>) s;
                 Some (s1\<lparr>nodes := (nodes s1)(zm \<mapsto> \<lparr>prev = NULL, next = NULL, value = v\<rparr>)\<rparr>)
               } else do {
                 let s1 = s\<lparr>nodes := (nodes s)(zm \<mapsto> \<lparr>prev = NULL, next = head L, value = v\<rparr>)\<rparr>;
                 s2 \<leftarrow> upd_node (head L) (\<lambda>n. n\<lparr>prev := zm\<rparr>) s1;
                 upd_list lp (\<lambda>L. L\<lparr>head := zm\<rparr>) s2
               });
        s4 \<leftarrow> upd_list lp (\<lambda>L. L\<lparr>len := len L + 1\<rparr>) s3;
        Some (s4, lp)
      })"

definition listAddNodeTail :: "ptr \<Rightarrow> 'w state \<Rightarrow> ptr \<Rightarrow> ptr \<Rightarrow> ('w state \<times> ptr) option" where
  "listAddNodeTail zm s lp v =
     (if zm = NULL then Some (s, NULL)
      else do {
        L \<leftarrow> headers s lp;
        s3 \<leftarrow> (if len L = 0 then do {
                 s1 \<leftarrow> upd_list lp (\<lambda>L. L\<lparr>head := zm, tail := zm\<rparr>) s;
                 Some (s1\<lparr>nodes := (nodes s1)(zm \<mapsto> \<lparr>prev = NULL, next = NULL, value = v\<rparr>)\<rparr>)
               } else do {
                 let s1 = s\<lparr>nodes := (nodes s)(zm \<mapsto> \<lparr>prev = tail L, next = NULL, value = v\<rparr>)\<rparr>;
                 s2 \<leftarrow> upd_node (tail L) (\<lambda>n. n\<lparr>next := zm\<rparr>) s1;
                 upd_list lp (\<lambda>L. L\<lparr>tail := zm\<rparr>) s2
               });
        s4 \<leftarrow> upd_list lp (\<lambda>L. L\<lparr>len := len L + 1\<rparr>) s3;
        Some (s4, lp)
      })"

definition listInsertNode ::
  "ptr \<Rightarrow> 'w state \<Rightarrow> ptr \<Rightarrow> ptr \<Rightarrow> ptr \<Rightarrow> cint \<Rightarrow> ('w state \<times> ptr) option" where
  "listInsertNode zm s lp old_node v after =
     (if zm = NULL then Some (s, NULL)
      else do {
        old \<leftarrow> nodes s old_node;
        L \<leftarrow> headers s lp;
        s1 \<leftarrow> (if after \<noteq> 0 then do {
                 let s0 = s\<lparr>nodes := (nodes s)(zm \<mapsto> \<lparr>prev = old_node, next = next old, value = v\<rparr>)\<rparr>;
                 if tail L = old_node then upd_list lp (\<lambda>L. L\<lparr>tail := zm\<rparr>) s0 else Some s0
               } else do {
                 let s0 = s\<lparr>nodes := (nodes s)(zm \<mapsto> \<lparr>prev = prev old, next = old_node, value = v\<rparr>)\<rparr>;
                 if head L = old_node then upd_list lp (\<lambda>L. L\<lparr>head := zm\<rparr>) s0 else Some s0
               });
        n1 \<leftarrow> nodes s1 zm;
        s2 \<leftarrow> (if prev n1 \<noteq> NULL then upd_node (prev n1) (\<lambda>n. n\<lparr>next := zm\<rparr>) s1 else Some s1);
        n2 \<leftarrow> nodes s2 zm;
        s3 \<leftarrow> (if next n2 \<noteq> NULL then upd_node (next n2) (\<lambda>n. n\<lparr>prev := zm\<rparr>) s2 else Some s2);
        s4 \<leftarrow> upd_list lp (\<lambda>L. L\<lparr>len := len L + 1\<rparr>) s3;
        Some (s4, lp)
      })"

subsection \<open>Deletion\<close>

definition listDelNode :: "'w state \<Rightarrow> ptr \<Rightarrow> ptr \<Rightarrow> 'w state option" where
  "listDelNode s lp node = do {
     n \<leftarrow> nodes s node;
     s1 \<leftarrow> (if prev n \<noteq> NULL then upd_node (prev n) (\<lambda>p. p\<lparr>next := next n\<rparr>) s
            else upd_list lp (\<lambda>L. L\<lparr>head := next n\<rparr>) s);
     n1 \<leftarrow> nodes s1 node;
     s2 \<leftarrow> (if next n1 \<noteq> NULL then upd_node (next n1) (\<lambda>q. q\<lparr>prev := prev n1\<rparr>) s1
            else upd_list lp (\<lambda>L. L\<lparr>tail := prev n1\<rparr>) s1);
     L \<leftarrow> headers s2 lp;
     n2 \<leftarrow> nodes s2 node;
     upd_list lp (\<lambda>L. L\<lparr>len := len L - 1\<rparr>) (zfree_node node (call_free L (value n2) s2))
   }"

subsection \<open>Iterators\<close>

definition upd_iter :: "ptr \<Rightarrow> (listIter \<Rightarrow> listIter) \<Rightarrow> 'w state \<Rightarrow> 'w state option" where
  "upd_iter p f s =
     (case iters s p of None \<Rightarrow> None
      | Some i \<Rightarrow> Some (s\<lparr>iters := (iters s)(p \<mapsto> f i)\<rparr>))"

definition listGetIterator :: "ptr \<Rightarrow> 'w state \<Rightarrow> ptr \<Rightarrow> cint \<Rightarrow> ('w state \<times> ptr) option" where
  "listGetIterator zm s lp dir =
     (if zm = NULL then Some (s, NULL)
      else do {
        L \<leftarrow> headers s lp;
        Some (s\<lparr>iters := (iters s)(zm \<mapsto>
                \<lparr>it_next = (if dir = AL_START_HEAD then head L else tail L),
                 direction = dir\<rparr>)\<rparr>, zm)
      })"

text \<open>\<^verbatim>\<open>zfree(iter)\<close>; \<^verbatim>\<open>zfree(NULL)\<close> does nothing.\<close>

definition listReleaseIterator :: "'w state \<Rightarrow> ptr \<Rightarrow> 'w state option" where
  "listReleaseIterator s ip =
     (if ip = NULL then Some s
      else case iters s ip of None \<Rightarrow> None
           | Some i \<Rightarrow> Some (s\<lparr>iters := (iters s)(ip := None)\<rparr>))"

text \<open>
  \<^verbatim>\<open>listRewind\<close>, \<^verbatim>\<open>listRewindTail\<close> and \<^verbatim>\<open>listNext\<close> work on the iterator their
  argument points to. \<^verbatim>\<open>listDup\<close> and \<^verbatim>\<open>listSearchKey\<close> call them on a local
  variable \<^verbatim>\<open>iter\<close>, which is not in the heap: each body is therefore a function on
  the iterator value, and the function of the source applies it through the pointer.
\<close>

definition rewind_it :: "'w list_t \<Rightarrow> listIter \<Rightarrow> listIter" where
  "rewind_it L li = li\<lparr>it_next := head L, direction := AL_START_HEAD\<rparr>"

definition rewindTail_it :: "'w list_t \<Rightarrow> listIter \<Rightarrow> listIter" where
  "rewindTail_it L li = li\<lparr>it_next := tail L, direction := AL_START_TAIL\<rparr>"

definition next_it :: "(ptr \<rightharpoonup> listNode) \<Rightarrow> listIter \<Rightarrow> (ptr \<times> listIter) option" where
  "next_it h iter =
     (let current = it_next iter in
      if current \<noteq> NULL then
        (case h current of None \<Rightarrow> None
         | Some c \<Rightarrow>
             Some (current,
               if direction iter = AL_START_HEAD then iter\<lparr>it_next := next c\<rparr>
               else iter\<lparr>it_next := prev c\<rparr>))
      else Some (current, iter))"

definition listRewind :: "'w state \<Rightarrow> ptr \<Rightarrow> ptr \<Rightarrow> 'w state option" where
  "listRewind s lp li = do {
     L \<leftarrow> headers s lp;
     upd_iter li (rewind_it L) s
   }"

definition listRewindTail :: "'w state \<Rightarrow> ptr \<Rightarrow> ptr \<Rightarrow> 'w state option" where
  "listRewindTail s lp li = do {
     L \<leftarrow> headers s lp;
     upd_iter li (rewindTail_it L) s
   }"

definition listNext :: "'w state \<Rightarrow> ptr \<Rightarrow> ('w state \<times> ptr) option" where
  "listNext s ip = do {
     iter \<leftarrow> iters s ip;
     (current, iter') \<leftarrow> next_it (nodes s) iter;
     Some (s\<lparr>iters := (iters s)(ip \<mapsto> iter')\<rparr>, current)
   }"

subsection \<open>Duplication, search, index\<close>

text \<open>
  \<^verbatim>\<open>listDup\<close> allocates once for the header and once per node: \<open>zmalloc k\<close> is the
  pointer the \<open>k\<close>-th call of \<^verbatim>\<open>zmalloc\<close> returns, the header's call being number 0.
  The loop follows \<^verbatim>\<open>next\<close> links for as long as they are not \<open>NULL\<close>; a run that
  never ends has no result.
\<close>

partial_function (option) listDup_loop ::
  "(nat \<Rightarrow> ptr) \<Rightarrow> nat \<Rightarrow> ptr \<Rightarrow> listIter \<Rightarrow> 'w state \<Rightarrow> ('w state \<times> ptr) option" where
  "listDup_loop zmalloc k copy iter s = do {
     (node, iter') \<leftarrow> next_it (nodes s) iter;
     if node = NULL then Some (s, copy)
     else do {
       C \<leftarrow> headers s copy;
       n \<leftarrow> nodes s node;
       let (v, s1) = (case dup C of
                        Some d \<Rightarrow> (let (v, w) = d (value n) (world s) in (v, s\<lparr>world := w\<rparr>))
                      | None \<Rightarrow> (value n, s));
       if dup C \<noteq> None \<and> v = NULL then do {
         s2 \<leftarrow> listRelease s1 copy;
         Some (s2, NULL)
       } else do {
         (s2, r) \<leftarrow> listAddNodeTail (zmalloc k) s1 copy v;
         if r = NULL then do {
           s3 \<leftarrow> listRelease s2 copy;
           Some (s3, NULL)
         } else listDup_loop zmalloc (Suc k) copy iter' s2
       }
     }
   }"

definition listDup :: "(nat \<Rightarrow> ptr) \<Rightarrow> 'w state \<Rightarrow> ptr \<Rightarrow> ('w state \<times> ptr) option" where
  "listDup zmalloc s orig =
     (case listCreate (zmalloc 0) s of (s0, copy) \<Rightarrow>
      if copy = NULL then Some (s0, NULL)
      else do {
        L \<leftarrow> headers s0 orig;
        s1 \<leftarrow> upd_list copy (\<lambda>C. C\<lparr>dup := dup L\<rparr>) s0;
        L1 \<leftarrow> headers s1 orig;
        s2 \<leftarrow> upd_list copy (\<lambda>C. C\<lparr>free := free L1\<rparr>) s1;
        L2 \<leftarrow> headers s2 orig;
        s3 \<leftarrow> upd_list copy (\<lambda>C. C\<lparr>match := match L2\<rparr>) s2;
        L3 \<leftarrow> headers s3 orig;
        listDup_loop zmalloc 1 copy (rewind_it L3 \<lparr>it_next = NULL, direction = 0\<rparr>) s3
      })"

partial_function (option) listSearchKey_loop ::
  "ptr \<Rightarrow> ptr \<Rightarrow> listIter \<Rightarrow> 'w state \<Rightarrow> ('w state \<times> ptr) option" where
  "listSearchKey_loop lp key iter s = do {
     (node, iter') \<leftarrow> next_it (nodes s) iter;
     if node = NULL then Some (s, NULL)
     else do {
       L \<leftarrow> headers s lp;
       n \<leftarrow> nodes s node;
       (case match L of
          Some m \<Rightarrow>
            (let (r, w) = m (value n) key (world s) in
             if r \<noteq> 0 then Some (s\<lparr>world := w\<rparr>, node)
             else listSearchKey_loop lp key iter' (s\<lparr>world := w\<rparr>))
        | None \<Rightarrow>
            if key = value n then Some (s, node)
            else listSearchKey_loop lp key iter' s)
     }
   }"

definition listSearchKey :: "'w state \<Rightarrow> ptr \<Rightarrow> ptr \<Rightarrow> ('w state \<times> ptr) option" where
  "listSearchKey s lp key = do {
     L \<leftarrow> headers s lp;
     listSearchKey_loop lp key (rewind_it L \<lparr>it_next = NULL, direction = 0\<rparr>) s
   }"

text \<open>
  The two loops \<^verbatim>\<open>while(index-- && n) n = n->prev\<close> and \<^verbatim>\<open>... n = n->next\<close> of
  \<^verbatim>\<open>listIndex\<close>; \<open>link\<close> is the field followed. \<^verbatim>\<open>index\<close> is a \<^verbatim>\<open>long\<close>, read
  as signed by \<open>sint\<close>; \<^verbatim>\<open>(-index)-1\<close> is computed in two's complement.
\<close>

function listIndex_loop ::
  "(listNode \<Rightarrow> ptr) \<Rightarrow> (ptr \<rightharpoonup> listNode) \<Rightarrow> 64 word \<Rightarrow> ptr \<Rightarrow> ptr option" where
  "listIndex_loop link h index n =
     (if index \<noteq> 0 \<and> n \<noteq> NULL then
        (case h n of None \<Rightarrow> None
         | Some c \<Rightarrow> listIndex_loop link h (index - 1) (link c))
      else Some n)"
  by pat_completeness auto
termination
  by (relation "measure (\<lambda>(link, h, index, n). unat index)") (auto simp: unat_minus_one unat_gt_0)

definition listIndex :: "'w state \<Rightarrow> ptr \<Rightarrow> 64 word \<Rightarrow> ptr option" where
  "listIndex s lp index = do {
     L \<leftarrow> headers s lp;
     if sint index < 0 then listIndex_loop prev (nodes s) ((- index) - 1) (tail L)
     else listIndex_loop next (nodes s) index (head L)
   }"

subsection \<open>Rotation and join\<close>

text \<open>\<^verbatim>\<open>listLength(list)\<close> is the macro \<^verbatim>\<open>(list)->len\<close> of \<^verbatim>\<open>adlist.h\<close>.\<close>

definition listRotate :: "'w state \<Rightarrow> ptr \<Rightarrow> 'w state option" where
  "listRotate s lp = do {
     L \<leftarrow> headers s lp;
     let tl = tail L;
     if len L \<le> 1 then Some s
     else do {
       t \<leftarrow> nodes s tl;
       s1 \<leftarrow> upd_list lp (\<lambda>L. L\<lparr>tail := prev t\<rparr>) s;
       L1 \<leftarrow> headers s1 lp;
       s2 \<leftarrow> upd_node (tail L1) (\<lambda>n. n\<lparr>next := NULL\<rparr>) s1;
       L2 \<leftarrow> headers s2 lp;
       s3 \<leftarrow> upd_node (head L2) (\<lambda>n. n\<lparr>prev := tl\<rparr>) s2;
       s4 \<leftarrow> upd_node tl (\<lambda>n. n\<lparr>prev := NULL\<rparr>) s3;
       L4 \<leftarrow> headers s4 lp;
       s5 \<leftarrow> upd_node tl (\<lambda>n. n\<lparr>next := head L4\<rparr>) s4;
       upd_list lp (\<lambda>L. L\<lparr>head := tl\<rparr>) s5
     }
   }"

text \<open>The parameter \<^verbatim>\<open>o\<close> of the source is \<open>other\<close> here.\<close>

definition listJoin :: "'w state \<Rightarrow> ptr \<Rightarrow> ptr \<Rightarrow> 'w state option" where
  "listJoin s l other = do {
     O0 \<leftarrow> headers s other;
     s1 \<leftarrow> (if head O0 \<noteq> NULL then do {
              L0 \<leftarrow> headers s l;
              upd_node (head O0) (\<lambda>n. n\<lparr>prev := tail L0\<rparr>) s
            } else Some s);
     L1 \<leftarrow> headers s1 l;
     O1 \<leftarrow> headers s1 other;
     s2 \<leftarrow> (if tail L1 \<noteq> NULL then upd_node (tail L1) (\<lambda>n. n\<lparr>next := head O1\<rparr>) s1
            else upd_list l (\<lambda>L. L\<lparr>head := head O1\<rparr>) s1);
     O2 \<leftarrow> headers s2 other;
     s3 \<leftarrow> (if tail O2 \<noteq> NULL then upd_list l (\<lambda>L. L\<lparr>tail := tail O2\<rparr>) s2 else Some s2);
     O3 \<leftarrow> headers s3 other;
     s4 \<leftarrow> upd_list l (\<lambda>L. L\<lparr>len := len L + len O3\<rparr>) s3;
     s5 \<leftarrow> upd_list other (\<lambda>L. L\<lparr>head := NULL, tail := NULL\<rparr>) s4;
     upd_list other (\<lambda>L. L\<lparr>len := 0\<rparr>) s5
   }"

section \<open>Abstraction: the node sequence of a list\<close>

text \<open>
  A list in the store is described by the sequence \<open>xs\<close> of the addresses of its
  nodes, head first. \<open>first_or xs q\<close> is the first address of \<open>xs\<close>, or \<open>q\<close> when
  \<open>xs\<close> is empty, and \<open>last_or xs p\<close> the last one, or \<open>p\<close>.

  \<open>chain h p xs q\<close>: in the heap \<open>h\<close> the nodes \<open>xs\<close> are allocated, none is
  \<open>NULL\<close>, and they are linked in both directions: the \<^verbatim>\<open>prev\<close> of the first is
  \<open>p\<close>, the \<^verbatim>\<open>next\<close> of the last is \<open>q\<close>, and the \<^verbatim>\<open>next\<close> of each node is the node
  after it, whose \<^verbatim>\<open>prev\<close> is the node itself.

  \<open>list_inv s lp xs\<close>: \<open>lp\<close> is an allocated header, and its list is valid with node
  sequence \<open>xs\<close>: the nodes are pairwise different and chained from \<open>NULL\<close> to
  \<open>NULL\<close>, head and tail are the first and the last node (\<open>NULL\<close> for the empty
  list), and \<^verbatim>\<open>len\<close> is the number of nodes. These are the invariants of the spec's data
  model, in the form the proofs use.
\<close>

fun first_or :: "ptr list \<Rightarrow> ptr \<Rightarrow> ptr" where
  "first_or [] q = q"
| "first_or (x # xs) q = x"

fun last_or :: "ptr list \<Rightarrow> ptr \<Rightarrow> ptr" where
  "last_or [] p = p"
| "last_or (x # xs) p = last_or xs x"

fun chain :: "(ptr \<rightharpoonup> listNode) \<Rightarrow> ptr \<Rightarrow> ptr list \<Rightarrow> ptr \<Rightarrow> bool" where
  "chain h p [] q = True"
| "chain h p (x # xs) q =
     (x \<noteq> NULL \<and>
      (case h x of None \<Rightarrow> False
       | Some n \<Rightarrow> prev n = p \<and> next n = first_or xs q) \<and>
      chain h x xs q)"

definition list_inv :: "'w state \<Rightarrow> ptr \<Rightarrow> ptr list \<Rightarrow> bool" where
  "list_inv s lp xs =
     (case headers s lp of None \<Rightarrow> False
      | Some L \<Rightarrow>
          distinct xs \<and> chain (nodes s) NULL xs NULL \<and>
          head L = first_or xs NULL \<and> tail L = last_or xs NULL \<and>
          unat (len L) = length xs)"

text \<open>
  Following one link field (\<^verbatim>\<open>next\<close> or \<^verbatim>\<open>prev\<close>) from \<open>p\<close> until \<open>NULL\<close>, for at most
  \<open>k\<close> steps: the nodes visited, or nothing when the walk leaves the allocated nodes or
  is not over after \<open>k\<close> steps.
\<close>

fun walk :: "(listNode \<Rightarrow> ptr) \<Rightarrow> (ptr \<rightharpoonup> listNode) \<Rightarrow> nat \<Rightarrow> ptr \<Rightarrow> ptr list option" where
  "walk link h 0 p = (if p = NULL then Some [] else None)"
| "walk link h (Suc k) p =
     (if p = NULL then Some []
      else case h p of None \<Rightarrow> None
           | Some n \<Rightarrow> map_option ((#) p) (walk link h k (link n)))"

text \<open>
  A concrete store for the examples: list 1 holds the nodes 10, 11, 12 and has a release
  callback that logs the released value in the world, list 2 holds the nodes 20, 21,
  list 3 is empty.
\<close>

definition demo :: "ptr list state" where
  "demo =
     \<lparr>nodes = [10 \<mapsto> \<lparr>prev = NULL, next = 11, value = 100\<rparr>,
               11 \<mapsto> \<lparr>prev = 10, next = 12, value = 101\<rparr>,
               12 \<mapsto> \<lparr>prev = 11, next = NULL, value = 102\<rparr>,
               20 \<mapsto> \<lparr>prev = NULL, next = 21, value = 200\<rparr>,
               21 \<mapsto> \<lparr>prev = 20, next = NULL, value = 201\<rparr>],
      headers = [1 \<mapsto> \<lparr>head = 10, tail = 12, dup = None,
                         free = Some (\<lambda>v w. w @ [v]), match = None, len = 3\<rparr>,
                 2 \<mapsto> \<lparr>head = 20, tail = 21, dup = None, free = None, match = None, len = 2\<rparr>,
                 3 \<mapsto> \<lparr>head = NULL, tail = NULL, dup = None, free = None, match = None,
                         len = 0\<rparr>],
      iters = Map.empty,
      world = []\<rparr>"

text \<open>The same store with two iterators: 40 is seated on node 11, 41 is exhausted.\<close>

definition demo_it :: "ptr list state" where
  "demo_it = demo\<lparr>iters := [40 \<mapsto> \<lparr>it_next = 11, direction = AL_START_HEAD\<rparr>,
                               41 \<mapsto> \<lparr>it_next = NULL, direction = AL_START_HEAD\<rparr>]\<rparr>"

text \<open>
  The same store with a duplicate callback on list 1, and two allocators: with the
  first every allocation succeeds, with the second the allocation of the third node
  fails.
\<close>

definition demo_dup :: "ptr list state" where
  "demo_dup = demo\<lparr>headers := (headers demo)(1 \<mapsto>
     \<lparr>head = 10, tail = 12, dup = Some (\<lambda>v w. (v + 1000, w)),
      free = Some (\<lambda>v w. w @ [v]), match = None, len = 3\<rparr>)\<rparr>"

definition demo_zmalloc :: "nat \<Rightarrow> ptr" where
  "demo_zmalloc k = [50, 51, 52, 53] ! k"

definition demo_zmalloc_fail :: "nat \<Rightarrow> ptr" where
  "demo_zmalloc_fail k = [50, 51, 52, NULL] ! k"

text \<open>
  What it means for an insertion to have linked exactly one new node \<open>zm\<close> holding
  \<open>v\<close> into list \<open>lp\<close>: the allocated nodes are those of before and \<open>zm\<close>, every
  other node holds the value it held, the stored length went up by one, and nothing else
  in the store changed.
\<close>

definition one_node_added :: "'w state \<Rightarrow> 'w state \<Rightarrow> ptr \<Rightarrow> ptr \<Rightarrow> ptr \<Rightarrow> bool" where
  "one_node_added s s' lp zm v \<longleftrightarrow>
     dom (nodes s') = insert zm (dom (nodes s)) \<and>
     map_option value (nodes s' zm) = Some v \<and>
     (\<forall>x. x \<noteq> zm \<longrightarrow> map_option value (nodes s' x) = map_option value (nodes s x)) \<and>
     map_option (\<lambda>L. unat (len L)) (headers s' lp) =
       map_option (\<lambda>L. Suc (unat (len L))) (headers s lp) \<and>
     (\<forall>lq. lq \<noteq> lp \<longrightarrow> headers s' lq = headers s lq) \<and>
     iters s' = iters s \<and> world s' = world s"

text \<open>
  The values held by the nodes \<open>xs\<close>, in order, and the effect on the world of the
  release callback run on a sequence of values in order.
\<close>

fun vals :: "(ptr \<rightharpoonup> listNode) \<Rightarrow> ptr list \<Rightarrow> ptr list" where
  "vals h [] = []"
| "vals h (x # xs) = (case h x of None \<Rightarrow> vals h xs | Some n \<Rightarrow> value n # vals h xs)"

fun release_all :: "(ptr \<Rightarrow> 'w \<Rightarrow> 'w) option \<Rightarrow> ptr list \<Rightarrow> 'w \<Rightarrow> 'w" where
  "release_all None vs w = w"
| "release_all (Some f) [] w = w"
| "release_all (Some f) (v # vs) w = release_all (Some f) vs (f v w)"

text \<open>
  \<^verbatim>\<open>listDup\<close> at the level of values, after the spec's description of
  \<open>duplicate\<close>: the source values are taken head to tail; each is passed to the
  duplicate callback when one is installed (a \<open>NULL\<close> result signals failure) and is
  shared otherwise; the result is appended to the values placed in the copy, for which a
  node is allocated (\<open>zmalloc k\<close> is the pointer the \<open>k\<close>-th allocation returns). The
  result says whether the run succeeded, which values are in the copy at the end of the
  run, and what the duplicate calls have made of the world.
\<close>

fun dup_run ::
  "(ptr \<Rightarrow> 'w \<Rightarrow> ptr \<times> 'w) option \<Rightarrow> (nat \<Rightarrow> ptr) \<Rightarrow> nat \<Rightarrow> ptr list \<Rightarrow> ptr list \<Rightarrow> 'w \<Rightarrow>
     bool \<times> ptr list \<times> 'w" where
  "dup_run d zmalloc k [] placed w = (True, placed, w)"
| "dup_run d zmalloc k (v # vs) placed w =
     (case (case d of Some f \<Rightarrow> f v w | None \<Rightarrow> (v, w)) of
        (v', w') \<Rightarrow>
          if (d \<noteq> None \<and> v' = NULL) \<or> zmalloc k = NULL then (False, placed, w')
          else dup_run d zmalloc (Suc k) vs (placed @ [v']) w')"

text \<open>
  The usage pattern of the comment above \<^verbatim>\<open>listNext\<close>: \<open>drain k\<close> calls
  \<^verbatim>\<open>listNext\<close> \<open>k\<close> times and collects what the calls return; \<open>drain_del k\<close> does
  the same and removes each returned node with \<^verbatim>\<open>listDelNode\<close> before the next call,
  stopping when \<^verbatim>\<open>listNext\<close> returns \<open>NULL\<close>.
\<close>

fun drain :: "nat \<Rightarrow> 'w state \<Rightarrow> ptr \<Rightarrow> ('w state \<times> ptr list) option" where
  "drain 0 s ip = Some (s, [])"
| "drain (Suc k) s ip = do {
     (s1, n) \<leftarrow> listNext s ip;
     (s2, ns) \<leftarrow> drain k s1 ip;
     Some (s2, n # ns)
   }"

fun drain_del :: "nat \<Rightarrow> 'w state \<Rightarrow> ptr \<Rightarrow> ptr \<Rightarrow> ('w state \<times> ptr list) option" where
  "drain_del 0 s lp ip = Some (s, [])"
| "drain_del (Suc k) s lp ip = do {
     (s1, n) \<leftarrow> listNext s ip;
     if n = NULL then Some (s1, [n])
     else do {
       s2 \<leftarrow> listDelNode s1 lp n;
       (s3, ns) \<leftarrow> drain_del k s2 lp ip;
       Some (s3, n # ns)
     }
   }"

text \<open>
  Sequences of operations. An \<open>op\<close> is one call of a mutating function of
  \<^verbatim>\<open>adlist.c\<close> with its arguments (for the allocating ones, first the pointer that
  \<^verbatim>\<open>zmalloc\<close> returns).

  Modelled from the spec: \<open>SetMethods\<close> stands for the macros \<^verbatim>\<open>listSetDupMethod\<close>,
  \<^verbatim>\<open>listSetFreeMethod\<close> and \<^verbatim>\<open>listSetMatchMethod\<close> of \<^verbatim>\<open>adlist.h\<close> (not under
  src/), the spec's configuration hooks, which store a callback in the header.

  \<open>pre\<close> is what the caller and the allocator guarantee before the call: the list
  arguments are allocated headers, \<^verbatim>\<open>zmalloc\<close> returns \<open>NULL\<close> or a pointer that is
  not allocated, the node passed to \<^verbatim>\<open>listInsertNode\<close> or \<^verbatim>\<open>listDelNode\<close> is one that
  following \<^verbatim>\<open>next\<close> from the head of that list reaches, and \<^verbatim>\<open>listJoin\<close> gets two
  different lists. \<open>run\<close> executes a sequence from a store, as long as \<open>pre\<close> holds.
\<close>

datatype 'w op =
    Create ptr
  | SetMethods ptr "(ptr \<Rightarrow> 'w \<Rightarrow> ptr \<times> 'w) option" "(ptr \<Rightarrow> 'w \<Rightarrow> 'w) option"
      "(ptr \<Rightarrow> ptr \<Rightarrow> 'w \<Rightarrow> cint \<times> 'w) option"
  | AddHead ptr ptr ptr
  | AddTail ptr ptr ptr
  | Insert ptr ptr ptr ptr cint
  | Delete ptr ptr
  | Rotate ptr
  | Join ptr ptr
  | Empty ptr

fun exec :: "'w op \<Rightarrow> 'w state \<Rightarrow> 'w state option" where
  "exec (Create zm) s = Some (fst (listCreate zm s))"
| "exec (SetMethods lp d f m) s = upd_list lp (\<lambda>L. L\<lparr>dup := d, free := f, match := m\<rparr>) s"
| "exec (AddHead zm lp v) s = map_option fst (listAddNodeHead zm s lp v)"
| "exec (AddTail zm lp v) s = map_option fst (listAddNodeTail zm s lp v)"
| "exec (Insert zm lp old_node v after) s = map_option fst (listInsertNode zm s lp old_node v after)"
| "exec (Delete lp node) s = listDelNode s lp node"
| "exec (Rotate lp) s = listRotate s lp"
| "exec (Join l other) s = listJoin s l other"
| "exec (Empty lp) s = listEmpty s lp"

definition in_list :: "'w state \<Rightarrow> ptr \<Rightarrow> ptr \<Rightarrow> bool" where
  "in_list s lp x =
     (case headers s lp of None \<Rightarrow> False
      | Some L \<Rightarrow>
          (case walk next (nodes s) (unat (len L)) (head L) of None \<Rightarrow> False
           | Some xs \<Rightarrow> x \<in> set xs))"

fun pre :: "'w op \<Rightarrow> 'w state \<Rightarrow> bool" where
  "pre (Create zm) s = (zm = NULL \<or> headers s zm = None)"
| "pre (SetMethods lp d f m) s = (headers s lp \<noteq> None)"
| "pre (AddHead zm lp v) s = (headers s lp \<noteq> None \<and> (zm = NULL \<or> nodes s zm = None))"
| "pre (AddTail zm lp v) s = (headers s lp \<noteq> None \<and> (zm = NULL \<or> nodes s zm = None))"
| "pre (Insert zm lp old_node v after) s =
     (in_list s lp old_node \<and> (zm = NULL \<or> nodes s zm = None))"
| "pre (Delete lp node) s = in_list s lp node"
| "pre (Rotate lp) s = (headers s lp \<noteq> None)"
| "pre (Join l other) s = (headers s l \<noteq> None \<and> headers s other \<noteq> None \<and> l \<noteq> other)"
| "pre (Empty lp) s = (headers s lp \<noteq> None)"

fun run :: "'w state \<Rightarrow> 'w op list \<Rightarrow> 'w state option" where
  "run s [] = Some s"
| "run s (c # cs) =
     (if pre c s then (case exec c s of None \<Rightarrow> None | Some s' \<Rightarrow> run s' cs) else None)"

definition init :: "'w \<Rightarrow> 'w state" where
  "init w = \<lparr>nodes = Map.empty, headers = Map.empty, iters = Map.empty, world = w\<rparr>"

text \<open>
  The invariant of a whole store: \<open>f\<close> gives every allocated list its node sequence,
  and no node is in two lists.
\<close>

definition state_inv :: "'w state \<Rightarrow> (ptr \<Rightarrow> ptr list) \<Rightarrow> bool" where
  "state_inv s f \<longleftrightarrow>
     (\<forall>lp. headers s lp \<noteq> None \<longrightarrow> list_inv s lp (f lp)) \<and>
     (\<forall>lp lq. headers s lp \<noteq> None \<and> headers s lq \<noteq> None \<and> lp \<noteq> lq \<longrightarrow>
        set (f lp) \<inter> set (f lq) = {})"

text \<open>A sequence of operations for the examples.\<close>

definition demo_ops :: "ptr list op list" where
  "demo_ops =
     [Create 1, SetMethods 1 None (Some (\<lambda>v w. w @ [v])) None,
      AddTail 10 1 100, AddTail 11 1 101, AddHead 12 1 102,
      Insert 13 1 10 103 1, Rotate 1, Delete 1 11, Create 2, AddTail 20 2 200, Join 1 2,
      Empty 2]"

text \<open>The two concrete scenarios of the spec's testable properties.\<close>

definition scenario_ops :: "unit op list" where
  "scenario_ops =
     [Create 1, AddTail 10 1 1, AddTail 11 1 2, AddTail 12 1 3, Delete 1 11, Rotate 1,
      AddHead 13 1 0]"

definition scenario_join_ops :: "unit op list" where
  "scenario_join_ops =
     [Create 1, AddTail 10 1 1, AddTail 11 1 2, Create 2, AddTail 20 2 3, AddTail 21 2 4,
      Join 1 2]"

section \<open>Basic lemmas\<close>

declare listIndex_loop.simps [simp del] listEmpty_loop.simps [simp del]

lemma last_or_append [simp]: "last_or (xs @ ys) p = last_or ys (last_or xs p)"
  by (induction xs arbitrary: p) auto

lemma first_or_append [simp]: "first_or (xs @ ys) q = first_or xs (first_or ys q)"
  by (cases xs) auto

lemma last_or_last: "xs \<noteq> [] \<Longrightarrow> last_or xs p = last xs"
  by (induction xs arbitrary: p) auto

lemma first_or_hd: "xs \<noteq> [] \<Longrightarrow> first_or xs q = hd xs"
  by (cases xs) auto

lemma chain_append:
  "chain h p (xs @ ys) q \<longleftrightarrow> chain h p xs (first_or ys q) \<and> chain h (last_or xs p) ys q"
  by (induction xs arbitrary: p) (auto split: option.splits)

lemma chain_upd_other [simp]:
  "a \<notin> set xs \<Longrightarrow> chain (h(a := v)) p xs q = chain h p xs q"
  by (induction xs arbitrary: p) (auto split: option.splits)

lemma chain_not_NULL: "chain h p xs q \<Longrightarrow> NULL \<notin> set xs"
  by (induction xs arbitrary: p) (auto split: option.splits)

lemma chain_allocated: "chain h p xs q \<Longrightarrow> x \<in> set xs \<Longrightarrow> h x \<noteq> None"
  by (induction xs arbitrary: p) (auto split: option.splits)

lemma chain_cong:
  "(\<And>x. x \<in> set xs \<Longrightarrow> h' x = h x) \<Longrightarrow> chain h' p xs q = chain h p xs q"
  by (induction xs arbitrary: p) (auto split: option.splits)

lemma first_or_NULL_iff: "NULL \<notin> set xs \<Longrightarrow> first_or xs NULL = NULL \<longleftrightarrow> xs = []"
  by (cases xs) auto

lemma last_or_in_set: "xs \<noteq> [] \<Longrightarrow> last_or xs p \<in> set xs"
proof (induction xs arbitrary: p)
  case Nil
  then show ?case by simp
next
  case (Cons x xs)
  then show ?case by (cases "xs = []") auto
qed

lemma last_or_NULL_iff: "NULL \<notin> set xs \<Longrightarrow> last_or xs NULL = NULL \<longleftrightarrow> xs = []"
  using last_or_in_set [of xs NULL] by (cases xs) auto

text \<open>A list of distinct non-null 64-bit addresses is shorter than 2^64.\<close>

lemma distinct_ptrs_length:
  fixes xs :: "ptr list"
  assumes "distinct xs" "NULL \<notin> set xs"
  shows "length xs < 2 ^ 64 - 1 + 1" "length xs \<le> 2 ^ 64 - 1"
proof -
  have "set xs \<subseteq> UNIV - {NULL}" using assms by auto
  then have "card (set xs) \<le> card (UNIV - {NULL :: ptr})"
    by (intro card_mono) auto
  also have "\<dots> = 2 ^ 64 - 1"
    by (simp add: card_Diff_singleton card_word)
  finally show "length xs \<le> 2 ^ 64 - 1" using assms by (simp add: distinct_card)
  then show "length xs < 2 ^ 64 - 1 + 1" by simp
qed

lemma walk_next_chain:
  "chain h p xs NULL \<Longrightarrow> length xs \<le> k \<Longrightarrow> walk next h k (first_or xs NULL) = Some xs"
proof (induction xs arbitrary: p k)
  case Nil
  then show ?case by (cases k) auto
next
  case (Cons x xs)
  then obtain k' where "k = Suc k'" by (cases k) auto
  with Cons show ?case by (auto split: option.splits)
qed

lemma walk_prev_chain:
  "chain h NULL xs q \<Longrightarrow> length xs \<le> k \<Longrightarrow> walk prev h k (last_or xs NULL) = Some (rev xs)"
proof (induction xs arbitrary: q k rule: rev_induct)
  case Nil
  then show ?case by (cases k) auto
next
  case (snoc x xs)
  then obtain k' where k: "k = Suc k'" by (cases k) auto
  from snoc.prems have c: "chain h NULL xs x" "chain h (last_or xs NULL) [x] q"
    by (auto simp: chain_append)
  from snoc.IH [OF c(1), of k'] snoc.prems k have "walk prev h k' (last_or xs NULL) = Some (rev xs)"
    by simp
  with c(2) k show ?case by (auto split: option.splits)
qed

lemma list_invD:
  assumes "list_inv s lp xs"
  obtains L where "headers s lp = Some L" "distinct xs" "chain (nodes s) NULL xs NULL"
    "head L = first_or xs NULL" "tail L = last_or xs NULL" "unat (len L) = length xs"
  using assms by (auto simp: list_inv_def split: option.splits)

lemma chain_last_node:
  "chain h p xs q \<Longrightarrow> xs \<noteq> [] \<Longrightarrow> \<exists>n. h (last_or xs p) = Some n \<and> next n = q"
proof (induction xs arbitrary: p)
  case Nil
  then show ?case by simp
next
  case (Cons x xs)
  then show ?case by (cases xs) (auto split: option.splits)
qed

lemma list_t_upd_same:
  "head L = a \<Longrightarrow> L\<lparr>head := a\<rparr> = L"
  "tail L = b \<Longrightarrow> L\<lparr>tail := b\<rparr> = L"
  "len L = c \<Longrightarrow> L\<lparr>len := c\<rparr> = L"
  by auto

lemma listNode_upd_same:
  "prev n = a \<Longrightarrow> n\<lparr>prev := a\<rparr> = n"
  "next n = b \<Longrightarrow> n\<lparr>next := b\<rparr> = n"
  by auto

lemma unat_len_Suc:
  fixes w :: "64 word"
  shows "unat w = n \<Longrightarrow> n < 2 ^ 64 - 1 \<Longrightarrow> unat (w + 1) = Suc n"
  using unat_add_lem [of w 1] by simp

lemma unat_len_pred:
  fixes w :: "64 word"
  shows "unat w = Suc n \<Longrightarrow> unat (w - 1) = n"
  by (cases "w = 0") (simp_all add: unat_minus_one)

lemma fresh_not_in_chain: "chain h p xs q \<Longrightarrow> h zm = None \<Longrightarrow> zm \<notin> set xs"
  using chain_allocated by fastforce

lemma len_after_add:
  fixes w :: "64 word" and xs :: "ptr list"
  assumes "unat w = length xs" "distinct xs" "NULL \<notin> set xs" "zm \<noteq> NULL" "zm \<notin> set xs"
  shows "unat (w + 1) = Suc (length xs)" "w + 1 \<noteq> 0"
proof -
  have "length (zm # xs) \<le> 2 ^ 64 - 1"
    using assms by (intro distinct_ptrs_length) auto
  then have lt: "length xs < 2 ^ 64 - 1" by simp
  with assms(1) show "unat (w + 1) = Suc (length xs)" by (rule unat_len_Suc)
  then show "w + 1 \<noteq> 0" by (metis unat_0 nat.distinct(1))
qed

lemma last_or_neq: "x \<notin> set ys \<Longrightarrow> ys \<noteq> [] \<Longrightarrow> last_or ys p \<noteq> x"
  using last_or_in_set [of ys p] by auto

lemma chain_snocD:
  assumes "chain h p (ys @ [t]) q"
  obtains nt where "h t = Some nt" "prev nt = last_or ys p" "next nt = q" "chain h p ys t" "t \<noteq> NULL"
  using assms by (auto simp: chain_append split: option.splits)

lemma chain_ConsD:
  assumes "chain h p (x # xs) q"
  obtains nx where "h x = Some nx" "prev nx = p" "next nx = first_or xs q" "chain h x xs q" "x \<noteq> NULL"
  using assms by (auto split: option.splits)

lemma dom_same_values:
  assumes "\<forall>x. map_option value (nodes s' x) = map_option value (nodes s x)"
  shows "dom (nodes s') = dom (nodes s)"
proof -
  have "nodes s' x = None \<longleftrightarrow> nodes s x = None" for x
    using assms by (metis option.map_disc_iff)
  then show ?thesis by (auto simp: dom_def)
qed

lemma list_inv_frame:
  assumes "list_inv s lp xs" "headers s' lp = headers s lp"
    and "\<forall>x. x \<in> set xs \<longrightarrow> nodes s' x = nodes s x"
  shows "list_inv s' lp xs"
proof -
  have "chain (nodes s') NULL xs NULL = chain (nodes s) NULL xs NULL"
    using assms(3) by (intro chain_cong) simp
  with assms(1,2) show ?thesis by (auto simp: list_inv_def split: option.splits)
qed

lemma list_inv_walks:
  assumes "list_inv s lp xs" "headers s lp = Some L" "length xs \<le> k"
  shows "walk next (nodes s) k (head L) = Some xs" "walk prev (nodes s) k (tail L) = Some (rev xs)"
  using assms walk_next_chain [of "nodes s" NULL xs k] walk_prev_chain [of "nodes s" xs NULL k]
  by (auto simp: list_inv_def)

text \<open>Reading a \<^verbatim>\<open>long\<close> index.\<close>

lemma sint_long_cases:
  fixes w :: "64 word"
  shows "sint w = (if uint w < 2 ^ 63 then uint w else uint w - 2 ^ 64)"
proof -
  have b: "0 \<le> uint w" "uint w < 2 ^ 64"
    using uint_bounded [of w] by simp_all
  have s: "sint w = (uint w + 2 ^ 63) mod 2 ^ 64 - 2 ^ 63"
    by (simp add: sint_uint signed_take_bit_eq_take_bit_shift take_bit_eq_mod)
  show ?thesis
  proof (cases "uint w < 2 ^ 63")
    case True
    with b have "(uint w + 2 ^ 63) mod 2 ^ 64 = uint w + 2 ^ 63"
      by (intro mod_pos_pos_trivial) simp_all
    with s True show ?thesis by simp
  next
    case False
    with b have "(uint w + 2 ^ 63 - 2 ^ 64) mod 2 ^ 64 = uint w + 2 ^ 63 - 2 ^ 64"
      by (intro mod_pos_pos_trivial) simp_all
    moreover have "(uint w + 2 ^ 63 - 2 ^ 64) mod 2 ^ 64 = (uint w + 2 ^ 63) mod (2 ^ 64 :: int)"
      by (rule trans [OF mod_diff_right_eq [symmetric]]) simp
    ultimately show ?thesis using s False by simp
  qed
qed


lemma unat_nonneg_long:
  fixes i :: "64 word"
  shows "0 \<le> sint i \<Longrightarrow> unat i = nat (sint i)"
  using uint_bounded [of i] by (simp add: sint_long_cases split: if_splits)

lemma unat_neg_long:
  fixes i :: "64 word"
  assumes "sint i < 0"
  shows "unat (- i - 1) = nat (- sint i - 1)"
proof -
  have b: "0 \<le> uint i" "uint i < 2 ^ 64"
    using uint_bounded [of i] by simp_all
  from assms have big: "2 ^ 63 \<le> uint i" and s: "sint i = uint i - 2 ^ 64"
    using b by (simp_all add: sint_long_cases split: if_splits)
  have "uint (- i - 1) = (- uint i - 1) mod 2 ^ 64"
    by (simp add: uint_word_ariths mod_diff_left_eq)
  also have "\<dots> = (- uint i - 1 + 2 ^ 64) mod 2 ^ 64"
    by (simp only: mod_add_self2)
  also have "\<dots> = - uint i - 1 + 2 ^ 64"
    using b big by (intro mod_pos_pos_trivial) simp_all
  finally have "uint (- i - 1) = - sint i - 1" using s by simp
  then show ?thesis by (simp only: unat_eq_nat_uint)
qed

lemma list_inv_world_upd [simp]: "list_inv (s\<lparr>world := w\<rparr>) lp xs = list_inv s lp xs"
  by (simp add: list_inv_def split: option.split)

section \<open>Validity and the invariants of the data model\<close>

text \<open>
  The invariants as the spec words them imply \<open>list_inv\<close>: a walk that reaches
  \<open>NULL\<close> cannot visit a node twice, so the nodes are pairwise different, and the
  back-links make the chain. The converse is part of the theorem on reachable stores
  below.
\<close>

lemma walk_first:
  "walk link h k p = Some xs \<Longrightarrow> p = first_or xs NULL \<and> NULL \<notin> set xs"
proof (induction k arbitrary: p xs)
  case 0
  then show ?case by (auto split: if_splits)
next
  case (Suc k)
  show ?case
  proof (cases "p = NULL")
    case True
    with Suc.prems show ?thesis by simp
  next
    case False
    with Suc.prems obtain n ys where "h p = Some n" "walk link h k (link n) = Some ys" "xs = p # ys"
      by (auto split: option.splits)
    with Suc.IH [of "link n" ys] False show ?thesis by auto
  qed
qed

lemma walk_unique:
  "walk link h k p = Some xs \<Longrightarrow> walk link h k' p = Some ys \<Longrightarrow> xs = ys"
proof (induction k arbitrary: k' p xs ys)
  case 0
  then show ?case by (cases k') (auto split: if_splits)
next
  case (Suc k)
  show ?case
  proof (cases "p = NULL")
    case True
    with Suc.prems show ?thesis by (cases k') auto
  next
    case False
    with Suc.prems(1) obtain n xs' where n: "h p = Some n" "walk link h k (link n) = Some xs'"
      "xs = p # xs'"
      by (auto split: option.splits)
    from Suc.prems(2) False obtain j where j: "k' = Suc j" by (cases k') auto
    with Suc.prems(2) False n(1) obtain ys' where "walk link h j (link n) = Some ys'" "ys = p # ys'"
      by auto
    with Suc.IH [OF n(2), of j ys'] n(3) show ?thesis by simp
  qed
qed

lemma walk_suffix:
  "walk link h k p = Some (as @ x # bs) \<Longrightarrow> \<exists>j. walk link h j x = Some (x # bs)"
proof (induction as arbitrary: k p)
  case Nil
  then have "p = x" using walk_first [of link h k p "x # bs"] by simp
  with Nil show ?case by auto
next
  case (Cons a as)
  from Cons.prems obtain j where j: "k = Suc j"
    by (cases k) (auto split: if_splits)
  from Cons.prems have "p = a" "a \<noteq> NULL" using walk_first [of link h k p "a # as @ x # bs"] by auto
  with Cons.prems j obtain n where "h a = Some n" "walk link h j (link n) = Some (as @ x # bs)"
    by (auto split: option.splits)
  with Cons.IH show ?case by blast
qed

lemma walk_distinct: "walk link h k p = Some xs \<Longrightarrow> distinct xs"
proof (induction xs arbitrary: k p)
  case Nil
  then show ?case by simp
next
  case (Cons x xs)
  from Cons.prems have px: "p = x" "x \<noteq> NULL"
    using walk_first [of link h k p "x # xs"] by auto
  from Cons.prems obtain j where j: "k = Suc j"
    by (cases k) (auto split: if_splits)
  with Cons.prems px obtain n where n: "h x = Some n" "walk link h j (link n) = Some xs"
    by (auto split: option.splits)
  have "x \<notin> set xs"
  proof
    assume "x \<in> set xs"
    then obtain as bs where xs: "xs = as @ x # bs" by (auto dest: split_list)
    with n(2) obtain i where "walk link h i x = Some (x # bs)"
      using walk_suffix by blast
    with Cons.prems px have "x # xs = x # bs" by (auto dest: walk_unique)
    with xs show False by simp
  qed
  with Cons.IH [OF n(2)] show ?case by simp
qed

lemma walk_next_links:
  "walk next h k p = Some (as @ x # bs) \<Longrightarrow> \<exists>n. h x = Some n \<and> next n = first_or bs NULL"
proof -
  assume "walk next h k p = Some (as @ x # bs)"
  then obtain j where j: "walk next h j x = Some (x # bs)" using walk_suffix by blast
  then have x: "x \<noteq> NULL" using walk_first [of "next" h j x "x # bs"] by simp
  from j obtain i where i: "j = Suc i" by (cases j) (auto split: if_splits)
  with j x obtain n where "h x = Some n" "walk next h i (next n) = Some bs"
    by (auto split: option.splits)
  with walk_first [of "next" h i "next n" bs] show ?thesis by auto
qed

lemma chain_of_links:
  assumes "\<forall>as x bs. xs = as @ x # bs \<longrightarrow>
             (\<exists>n. h x = Some n \<and> next n = first_or bs q \<and> prev n = last_or as p)"
    and "NULL \<notin> set xs"
  shows "chain h p xs q"
  using assms
proof (induction xs arbitrary: p)
  case Nil
  then show ?case by simp
next
  case (Cons y ys)
  from Cons.prems(1) [rule_format, of "[]" y ys] obtain n where
    n: "h y = Some n" "next n = first_or ys q" "prev n = p"
    by auto
  have "\<forall>as x bs. ys = as @ x # bs \<longrightarrow>
             (\<exists>n. h x = Some n \<and> next n = first_or bs q \<and> prev n = last_or as y)"
  proof (intro allI impI)
    fix as x bs assume "ys = as @ x # bs"
    with Cons.prems(1) [rule_format, of "y # as" x bs]
    show "\<exists>n. h x = Some n \<and> next n = first_or bs q \<and> prev n = last_or as y" by simp
  qed
  with Cons.IH [of y] Cons.prems(2) have "chain h y ys q" by simp
  with n Cons.prems(2) show ?case by simp
qed

text \<open>
  If following \<^verbatim>\<open>next\<close> from the head visits \<open>xs\<close>, following \<^verbatim>\<open>prev\<close> from the tail
  visits \<open>rev xs\<close>, the stored length is \<open>length xs\<close>, the \<^verbatim>\<open>prev\<close> of every non-null
  \<^verbatim>\<open>next\<close> of a node is the node, and the head's \<^verbatim>\<open>prev\<close> is null, then the list is
  valid with node sequence \<open>xs\<close>.
\<close>

lemma list_inv_of_structure:
  assumes L: "headers s lp = Some L"
    and fw: "walk next (nodes s) k (head L) = Some xs"
    and bw: "walk prev (nodes s) k' (tail L) = Some (rev xs)"
    and len: "unat (len L) = length xs"
    and links: "\<forall>x\<in>set xs. \<exists>n. nodes s x = Some n \<and>
                  (next n \<noteq> NULL \<longrightarrow> (\<exists>m. nodes s (next n) = Some m \<and> prev m = x))"
    and hd: "head L \<noteq> NULL \<longrightarrow> (\<exists>n. nodes s (head L) = Some n \<and> prev n = NULL)"
  shows "list_inv s lp xs"
proof -
  from walk_first [OF fw] have h: "head L = first_or xs NULL" and nn: "NULL \<notin> set xs"
    by simp_all
  from walk_first [OF bw] have "tail L = first_or (rev xs) NULL" by simp
  then have t: "tail L = last_or xs NULL"
    by (cases xs rule: rev_cases) simp_all
  have d: "distinct xs" using fw by (rule walk_distinct)
  have "\<forall>as x bs. xs = as @ x # bs \<longrightarrow>
             (\<exists>n. nodes s x = Some n \<and> next n = first_or bs NULL \<and> prev n = last_or as NULL)"
  proof (intro allI impI)
    fix as x bs assume xs: "xs = as @ x # bs"
    with fw obtain n where n: "nodes s x = Some n" "next n = first_or bs NULL"
      using walk_next_links [of "nodes s" k "head L" as x bs] by auto
    have "prev n = last_or as NULL"
    proof (cases as rule: rev_cases)
      case Nil
      with xs h have "head L = x" by simp
      with hd nn xs n(1) Nil show ?thesis by auto
    next
      case (snoc as' a)
      with xs have xs': "xs = as' @ a # (x # bs)" by simp
      with fw obtain na where na: "nodes s a = Some na" "next na = x"
        using walk_next_links [of "nodes s" k "head L" as' a "x # bs"] by auto
      from xs' have "a \<in> set xs" by simp
      with links na nn xs n(1) have "prev n = a" by fastforce
      with snoc show ?thesis by simp
    qed
    with n show "\<exists>n. nodes s x = Some n \<and> next n = first_or bs NULL \<and> prev n = last_or as NULL"
      by simp
  qed
  then have "chain (nodes s) NULL xs NULL" using nn by (rule chain_of_links)
  with L h t d len show ?thesis by (simp add: list_inv_def)
qed

section \<open>Insertion\<close>

lemma listAddNodeHead_ok:
  assumes inv: "list_inv s lp xs" and zm: "zm \<noteq> NULL" "nodes s zm = None"
  shows "\<exists>s' L L'. listAddNodeHead zm s lp v = Some (s', lp) \<and> list_inv s' lp (zm # xs) \<and>
           nodes s' zm = Some \<lparr>prev = NULL, next = first_or xs NULL, value = v\<rparr> \<and>
           (\<forall>x. x \<noteq> zm \<longrightarrow> x \<notin> set xs \<longrightarrow> nodes s' x = nodes s x) \<and>
           (\<forall>x. x \<noteq> zm \<longrightarrow> map_option value (nodes s' x) = map_option value (nodes s x)) \<and>
           (\<forall>lq. lq \<noteq> lp \<longrightarrow> headers s' lq = headers s lq) \<and>
           headers s lp = Some L \<and> headers s' lp = Some L' \<and>
           len L' = len L + 1 \<and> dup L' = dup L \<and> free L' = free L \<and> match L' = match L \<and>
           iters s' = iters s \<and> world s' = world s"
proof -
  from inv obtain L where L: "headers s lp = Some L" "distinct xs" "chain (nodes s) NULL xs NULL"
    "head L = first_or xs NULL" "tail L = last_or xs NULL" "unat (len L) = length xs"
    by (rule list_invD)
  have fresh: "zm \<notin> set xs" using L(3) zm(2) by (rule fresh_not_in_chain)
  have nn: "NULL \<notin> set xs" using L(3) by (rule chain_not_NULL)
  note len = len_after_add [OF L(6) L(2) nn zm(1) fresh]
  show ?thesis
  proof (cases xs)
    case Nil
    with L have "len L = 0" by (simp add: unat_eq_zero)
    with L zm Nil len show ?thesis
      by (simp add: listAddNodeHead_def upd_list_def list_inv_def)
  next
    case (Cons x xs')
    with L have l0: "len L \<noteq> 0" by auto
    from L(3) Cons obtain nx where nx: "nodes s x = Some nx" "prev nx = NULL"
      "next nx = first_or xs' NULL" "chain (nodes s) x xs' NULL" "x \<noteq> NULL"
      by (auto split: option.splits)
    from fresh Cons L(2) have d: "zm \<noteq> x" "zm \<notin> set xs'" "x \<notin> set xs'" by auto
    with L zm Cons len l0 nx show ?thesis
      by (simp add: listAddNodeHead_def upd_list_def upd_node_def list_inv_def)
  qed
qed

lemma listAddNodeTail_ok:
  assumes inv: "list_inv s lp xs" and zm: "zm \<noteq> NULL" "nodes s zm = None"
  shows "\<exists>s' L L'. listAddNodeTail zm s lp v = Some (s', lp) \<and> list_inv s' lp (xs @ [zm]) \<and>
           nodes s' zm = Some \<lparr>prev = last_or xs NULL, next = NULL, value = v\<rparr> \<and>
           (\<forall>x. x \<noteq> zm \<longrightarrow> x \<notin> set xs \<longrightarrow> nodes s' x = nodes s x) \<and>
           (\<forall>x. x \<noteq> zm \<longrightarrow> map_option value (nodes s' x) = map_option value (nodes s x)) \<and>
           (\<forall>lq. lq \<noteq> lp \<longrightarrow> headers s' lq = headers s lq) \<and>
           headers s lp = Some L \<and> headers s' lp = Some L' \<and>
           len L' = len L + 1 \<and> dup L' = dup L \<and> free L' = free L \<and> match L' = match L \<and>
           iters s' = iters s \<and> world s' = world s"
proof -
  from inv obtain L where L: "headers s lp = Some L" "distinct xs" "chain (nodes s) NULL xs NULL"
    "head L = first_or xs NULL" "tail L = last_or xs NULL" "unat (len L) = length xs"
    by (rule list_invD)
  have fresh: "zm \<notin> set xs" using L(3) zm(2) by (rule fresh_not_in_chain)
  have nn: "NULL \<notin> set xs" using L(3) by (rule chain_not_NULL)
  note len = len_after_add [OF L(6) L(2) nn zm(1) fresh]
  show ?thesis
  proof (cases xs rule: rev_cases)
    case Nil
    with L have "len L = 0" by (simp add: unat_eq_zero)
    with L zm Nil len show ?thesis
      by (simp add: listAddNodeTail_def upd_list_def list_inv_def)
  next
    case (snoc ys t)
    with L have l0: "len L \<noteq> 0" by auto
    from L(3) snoc obtain nt where nt: "nodes s t = Some nt" "prev nt = last_or ys NULL"
      "next nt = NULL" "chain (nodes s) NULL ys t" "t \<noteq> NULL"
      by (auto simp: chain_append split: option.splits)
    from fresh snoc L(2) have d: "zm \<noteq> t" "zm \<notin> set ys" "t \<notin> set ys" by auto
    with L zm snoc len l0 nt show ?thesis
      by (simp add: listAddNodeTail_def upd_list_def upd_node_def list_inv_def chain_append)
  qed
qed

lemma listInsertNode_after_ok:
  assumes inv: "list_inv s lp (as @ old_node # bs)" and zm: "zm \<noteq> NULL" "nodes s zm = None"
    and after: "after \<noteq> 0"
  shows "\<exists>s' L L'. listInsertNode zm s lp old_node v after = Some (s', lp) \<and>
           list_inv s' lp (as @ old_node # zm # bs) \<and>
           nodes s' zm = Some \<lparr>prev = old_node, next = first_or bs NULL, value = v\<rparr> \<and>
           (\<forall>x. x \<noteq> zm \<longrightarrow> x \<notin> set (as @ old_node # bs) \<longrightarrow> nodes s' x = nodes s x) \<and>
           (\<forall>x. x \<noteq> zm \<longrightarrow> map_option value (nodes s' x) = map_option value (nodes s x)) \<and>
           (\<forall>lq. lq \<noteq> lp \<longrightarrow> headers s' lq = headers s lq) \<and>
           headers s lp = Some L \<and> headers s' lp = Some L' \<and>
           len L' = len L + 1 \<and> dup L' = dup L \<and> free L' = free L \<and> match L' = match L \<and>
           iters s' = iters s \<and> world s' = world s"
proof -
  let ?xs = "as @ old_node # bs"
  from inv obtain L where L: "headers s lp = Some L" "distinct ?xs" "chain (nodes s) NULL ?xs NULL"
    "head L = first_or ?xs NULL" "tail L = last_or ?xs NULL" "unat (len L) = length ?xs"
    by (rule list_invD)
  have fresh: "zm \<notin> set ?xs" using L(3) zm(2) by (rule fresh_not_in_chain)
  have nn: "NULL \<notin> set ?xs" using L(3) by (rule chain_not_NULL)
  note len = len_after_add [OF L(6) L(2) nn zm(1) fresh]
  from L(3) have c1: "chain (nodes s) NULL as old_node"
    and c2: "chain (nodes s) (last_or as NULL) (old_node # bs) NULL"
    by (simp_all add: chain_append)
  from c2 obtain no where no: "nodes s old_node = Some no" "prev no = last_or as NULL"
    "next no = first_or bs NULL" "chain (nodes s) old_node bs NULL" "old_node \<noteq> NULL"
    by (rule chain_ConsD)
  from fresh L(2) have d: "zm \<noteq> old_node" "zm \<notin> set as" "zm \<notin> set bs"
    "old_node \<notin> set as" "old_node \<notin> set bs" "distinct as" "distinct bs" "set as \<inter> set bs = {}"
    by auto
  show ?thesis
  proof (cases bs)
    case Nil
    with L zm len no d c1 after show ?thesis
      by (simp add: listInsertNode_def upd_list_def upd_node_def list_inv_def chain_append)
  next
    case (Cons b bs')
    with no(4) obtain nb where nb: "nodes s b = Some nb" "prev nb = old_node"
      "next nb = first_or bs' NULL" "chain (nodes s) b bs' NULL" "b \<noteq> NULL"
      by (auto split: option.splits)
    from d Cons have d': "b \<noteq> old_node" "zm \<noteq> b" "b \<notin> set as" "b \<notin> set bs'"
      "zm \<notin> set bs'" "old_node \<notin> set bs'"
      using L(2) by auto
    have tl: "tail L \<noteq> old_node"
      using L(5) d(5) Cons last_or_neq [of old_node bs old_node] by simp
    with L zm len no nb d d' c1 after Cons show ?thesis
      by (simp add: listInsertNode_def upd_list_def upd_node_def list_inv_def chain_append)
  qed
qed

lemma listInsertNode_before_ok:
  assumes inv: "list_inv s lp (as @ old_node # bs)" and zm: "zm \<noteq> NULL" "nodes s zm = None"
  shows "\<exists>s' L L'. listInsertNode zm s lp old_node v 0 = Some (s', lp) \<and>
           list_inv s' lp (as @ zm # old_node # bs) \<and>
           nodes s' zm = Some \<lparr>prev = last_or as NULL, next = old_node, value = v\<rparr> \<and>
           (\<forall>x. x \<noteq> zm \<longrightarrow> x \<notin> set (as @ old_node # bs) \<longrightarrow> nodes s' x = nodes s x) \<and>
           (\<forall>x. x \<noteq> zm \<longrightarrow> map_option value (nodes s' x) = map_option value (nodes s x)) \<and>
           (\<forall>lq. lq \<noteq> lp \<longrightarrow> headers s' lq = headers s lq) \<and>
           headers s lp = Some L \<and> headers s' lp = Some L' \<and>
           len L' = len L + 1 \<and> dup L' = dup L \<and> free L' = free L \<and> match L' = match L \<and>
           iters s' = iters s \<and> world s' = world s"
proof -
  let ?xs = "as @ old_node # bs"
  from inv obtain L where L: "headers s lp = Some L" "distinct ?xs" "chain (nodes s) NULL ?xs NULL"
    "head L = first_or ?xs NULL" "tail L = last_or ?xs NULL" "unat (len L) = length ?xs"
    by (rule list_invD)
  have fresh: "zm \<notin> set ?xs" using L(3) zm(2) by (rule fresh_not_in_chain)
  have nn: "NULL \<notin> set ?xs" using L(3) by (rule chain_not_NULL)
  note len = len_after_add [OF L(6) L(2) nn zm(1) fresh]
  from L(3) have c1: "chain (nodes s) NULL as old_node"
    and c2: "chain (nodes s) (last_or as NULL) (old_node # bs) NULL"
    by (simp_all add: chain_append)
  from c2 obtain no where no: "nodes s old_node = Some no" "prev no = last_or as NULL"
    "next no = first_or bs NULL" "chain (nodes s) old_node bs NULL" "old_node \<noteq> NULL"
    by (rule chain_ConsD)
  from fresh L(2) have d: "zm \<noteq> old_node" "zm \<notin> set as" "zm \<notin> set bs"
    "old_node \<notin> set as" "old_node \<notin> set bs" "distinct as" "distinct bs" "set as \<inter> set bs = {}"
    by auto
  show ?thesis
  proof (cases as rule: rev_cases)
    case Nil
    with L zm len no d show ?thesis
      by (simp add: listInsertNode_def upd_list_def upd_node_def list_inv_def chain_append)
  next
    case (snoc as' a)
    with c1 obtain na where na: "nodes s a = Some na" "prev na = last_or as' NULL"
      "next na = old_node" "chain (nodes s) NULL as' a" "a \<noteq> NULL"
      by (auto simp: chain_append split: option.splits)
    from d snoc have d': "a \<noteq> old_node" "zm \<noteq> a" "a \<notin> set bs" "a \<notin> set as'"
      "zm \<notin> set as'" "old_node \<notin> set as'"
      using L(2) by auto
    have hd: "head L \<noteq> old_node"
      using L(4) d' snoc by (cases as') auto
    with L zm len no na d d' c1 snoc show ?thesis
      by (simp add: listInsertNode_def upd_list_def upd_node_def list_inv_def chain_append)
  qed
qed

lemma dom_from_values:
  assumes "nodes s' zm = Some n"
    and "\<forall>x. x \<noteq> zm \<longrightarrow> map_option value (nodes s' x) = map_option value (nodes s x)"
  shows "dom (nodes s') = insert zm (dom (nodes s))"
proof -
  have *: "nodes s' x = None \<longleftrightarrow> nodes s x = None" if "x \<noteq> zm" for x
    using assms(2) that by (metis option.map_disc_iff)
  have "x \<in> dom (nodes s') \<longleftrightarrow> x \<in> insert zm (dom (nodes s))" for x
    using * [of x] assms(1) by (cases "x = zm") (auto simp: dom_def)
  then show ?thesis by blast
qed

lemma one_node_addedI:
  assumes "list_inv s lp xs" "list_inv s' lp ys" "length ys = Suc (length xs)"
    and "nodes s' zm = Some \<lparr>prev = p, next = q, value = v\<rparr>"
    and "\<forall>x. x \<noteq> zm \<longrightarrow> map_option value (nodes s' x) = map_option value (nodes s x)"
    and "\<forall>lq. lq \<noteq> lp \<longrightarrow> headers s' lq = headers s lq"
    and "iters s' = iters s" "world s' = world s"
  shows "one_node_added s s' lp zm v"
  using assms dom_from_values [OF assms(4) assms(5)]
  by (auto simp: one_node_added_def list_inv_def split: option.splits)

text \<open>
  Claim C2. On a valid list \<open>lp\<close> with node sequence \<open>xs\<close>, when \<^verbatim>\<open>zmalloc\<close> returns a
  fresh node \<open>zm\<close>: \<^verbatim>\<open>listAddNodeHead\<close> returns \<open>lp\<close> and the sequence becomes
  \<open>zm # xs\<close> (if \<open>xs\<close> is empty the new node has null links and is head and tail);
  \<^verbatim>\<open>listAddNodeTail\<close> returns \<open>lp\<close> and the sequence becomes \<open>xs @ [zm]\<close>;
  \<^verbatim>\<open>listInsertNode\<close> with a non-zero flag puts \<open>zm\<close> right after the anchor, with flag 0
  right before it, so that \<open>zm\<close> is the new tail (head) exactly when the anchor was. In
  each case exactly one node, holding \<open>v\<close>, is added and the stored length goes up by one.
  When \<^verbatim>\<open>zmalloc\<close> returns \<open>NULL\<close>, each function returns \<open>NULL\<close> and the store is
  unchanged.
\<close>

theorem C2_insertion:
  assumes inv: "list_inv s lp xs" and zm: "zm \<noteq> NULL" "nodes s zm = None"
  shows "(\<exists>s'. listAddNodeHead zm s lp v = Some (s', lp) \<and> one_node_added s s' lp zm v \<and>
            list_inv s' lp (zm # xs) \<and>
            nodes s' zm = Some \<lparr>prev = NULL, next = first_or xs NULL, value = v\<rparr>) \<and>
         (\<exists>s'. listAddNodeTail zm s lp v = Some (s', lp) \<and> one_node_added s s' lp zm v \<and>
            list_inv s' lp (xs @ [zm]) \<and>
            nodes s' zm = Some \<lparr>prev = last_or xs NULL, next = NULL, value = v\<rparr>) \<and>
         (xs = as @ anchor # bs \<and> after \<noteq> 0 \<longrightarrow>
            (\<exists>s'. listInsertNode zm s lp anchor v after = Some (s', lp) \<and>
               one_node_added s s' lp zm v \<and> list_inv s' lp (as @ anchor # zm # bs) \<and>
               nodes s' zm = Some \<lparr>prev = anchor, next = first_or bs NULL, value = v\<rparr>)) \<and>
         (xs = as @ anchor # bs \<longrightarrow>
            (\<exists>s'. listInsertNode zm s lp anchor v 0 = Some (s', lp) \<and>
               one_node_added s s' lp zm v \<and> list_inv s' lp (as @ zm # anchor # bs) \<and>
               nodes s' zm = Some \<lparr>prev = last_or as NULL, next = anchor, value = v\<rparr>)) \<and>
         listAddNodeHead NULL s lp v = Some (s, NULL) \<and>
         listAddNodeTail NULL s lp v = Some (s, NULL) \<and>
         listInsertNode NULL s lp anchor v after = Some (s, NULL)"
proof -
  have hd: "\<exists>s'. listAddNodeHead zm s lp v = Some (s', lp) \<and> one_node_added s s' lp zm v \<and>
            list_inv s' lp (zm # xs) \<and>
            nodes s' zm = Some \<lparr>prev = NULL, next = first_or xs NULL, value = v\<rparr>"
  proof -
    from listAddNodeHead_ok [OF inv zm, of v] obtain s' where
      r: "listAddNodeHead zm s lp v = Some (s', lp)" "list_inv s' lp (zm # xs)"
        "nodes s' zm = Some \<lparr>prev = NULL, next = first_or xs NULL, value = v\<rparr>"
        "\<forall>x. x \<noteq> zm \<longrightarrow> map_option value (nodes s' x) = map_option value (nodes s x)"
        "\<forall>lq. lq \<noteq> lp \<longrightarrow> headers s' lq = headers s lq"
        "iters s' = iters s" "world s' = world s"
      by blast
    have "one_node_added s s' lp zm v"
      by (rule one_node_addedI [OF inv r(2) _ r(3-7)]) simp
    with r show ?thesis by blast
  qed
  have tl: "\<exists>s'. listAddNodeTail zm s lp v = Some (s', lp) \<and> one_node_added s s' lp zm v \<and>
            list_inv s' lp (xs @ [zm]) \<and>
            nodes s' zm = Some \<lparr>prev = last_or xs NULL, next = NULL, value = v\<rparr>"
  proof -
    from listAddNodeTail_ok [OF inv zm, of v] obtain s' where
      r: "listAddNodeTail zm s lp v = Some (s', lp)" "list_inv s' lp (xs @ [zm])"
        "nodes s' zm = Some \<lparr>prev = last_or xs NULL, next = NULL, value = v\<rparr>"
        "\<forall>x. x \<noteq> zm \<longrightarrow> map_option value (nodes s' x) = map_option value (nodes s x)"
        "\<forall>lq. lq \<noteq> lp \<longrightarrow> headers s' lq = headers s lq"
        "iters s' = iters s" "world s' = world s"
      by blast
    have "one_node_added s s' lp zm v"
      by (rule one_node_addedI [OF inv r(2) _ r(3-7)]) simp
    with r show ?thesis by blast
  qed
  have af: "\<exists>s'. listInsertNode zm s lp anchor v after = Some (s', lp) \<and>
               one_node_added s s' lp zm v \<and> list_inv s' lp (as @ anchor # zm # bs) \<and>
               nodes s' zm = Some \<lparr>prev = anchor, next = first_or bs NULL, value = v\<rparr>"
    if xs: "xs = as @ anchor # bs" and after: "after \<noteq> 0"
  proof -
    from inv xs have inv': "list_inv s lp (as @ anchor # bs)" by simp
    from listInsertNode_after_ok [OF inv' zm after, of v] obtain s' where
      r: "listInsertNode zm s lp anchor v after = Some (s', lp)"
        "list_inv s' lp (as @ anchor # zm # bs)"
        "nodes s' zm = Some \<lparr>prev = anchor, next = first_or bs NULL, value = v\<rparr>"
        "\<forall>x. x \<noteq> zm \<longrightarrow> map_option value (nodes s' x) = map_option value (nodes s x)"
        "\<forall>lq. lq \<noteq> lp \<longrightarrow> headers s' lq = headers s lq"
        "iters s' = iters s" "world s' = world s"
      by blast
    have "one_node_added s s' lp zm v"
      by (rule one_node_addedI [OF inv' r(2) _ r(3-7)]) simp
    with r show ?thesis by blast
  qed
  have bf: "\<exists>s'. listInsertNode zm s lp anchor v 0 = Some (s', lp) \<and>
               one_node_added s s' lp zm v \<and> list_inv s' lp (as @ zm # anchor # bs) \<and>
               nodes s' zm = Some \<lparr>prev = last_or as NULL, next = anchor, value = v\<rparr>"
    if xs: "xs = as @ anchor # bs"
  proof -
    from inv xs have inv': "list_inv s lp (as @ anchor # bs)" by simp
    from listInsertNode_before_ok [OF inv' zm, of v] obtain s' where
      r: "listInsertNode zm s lp anchor v 0 = Some (s', lp)"
        "list_inv s' lp (as @ zm # anchor # bs)"
        "nodes s' zm = Some \<lparr>prev = last_or as NULL, next = anchor, value = v\<rparr>"
        "\<forall>x. x \<noteq> zm \<longrightarrow> map_option value (nodes s' x) = map_option value (nodes s x)"
        "\<forall>lq. lq \<noteq> lp \<longrightarrow> headers s' lq = headers s lq"
        "iters s' = iters s" "world s' = world s"
      by blast
    have "one_node_added s s' lp zm v"
      by (rule one_node_addedI [OF inv' r(2) _ r(3-7)]) simp
    with r show ?thesis by blast
  qed
  have fail: "listAddNodeHead NULL s lp v = Some (s, NULL)"
    "listAddNodeTail NULL s lp v = Some (s, NULL)"
    "listInsertNode NULL s lp anchor v after = Some (s, NULL)"
    by (simp_all add: listAddNodeHead_def listAddNodeTail_def listInsertNode_def)
  from hd tl af bf fail show ?thesis by blast
qed

theorem C2_insertion_witness:
  "list_inv demo 1 [10, 11, 12] \<and>
   (\<exists>s'. listAddNodeHead 30 demo 1 7 = Some (s', 1) \<and> one_node_added demo s' 1 30 7 \<and>
      list_inv s' 1 [30, 10, 11, 12] \<and>
      nodes s' 30 = Some \<lparr>prev = NULL, next = 10, value = 7\<rparr>) \<and>
   (\<exists>s'. listAddNodeTail 30 demo 1 7 = Some (s', 1) \<and> one_node_added demo s' 1 30 7 \<and>
      list_inv s' 1 [10, 11, 12, 30] \<and>
      nodes s' 30 = Some \<lparr>prev = 12, next = NULL, value = 7\<rparr>) \<and>
   (\<exists>s'. listInsertNode 30 demo 1 11 7 1 = Some (s', 1) \<and> one_node_added demo s' 1 30 7 \<and>
      list_inv s' 1 [10, 11, 30, 12] \<and>
      nodes s' 30 = Some \<lparr>prev = 11, next = 12, value = 7\<rparr>) \<and>
   (\<exists>s'. listInsertNode 30 demo 1 11 7 0 = Some (s', 1) \<and> one_node_added demo s' 1 30 7 \<and>
      list_inv s' 1 [10, 30, 11, 12] \<and>
      nodes s' 30 = Some \<lparr>prev = 10, next = 11, value = 7\<rparr>) \<and>
   listAddNodeHead NULL demo 1 7 = Some (demo, NULL) \<and>
   listAddNodeTail NULL demo 1 7 = Some (demo, NULL) \<and>
   listInsertNode NULL demo 1 11 7 1 = Some (demo, NULL)"
proof -
  have inv: "list_inv demo 1 [10, 11, 12]"
    by (simp add: demo_def list_inv_def)
  have zm: "(30 :: ptr) \<noteq> NULL" "nodes demo 30 = None"
    by (simp_all add: demo_def)
  from C2_insertion [OF inv zm, of 7 "[10]" 11 "[12]" 1] inv
  show ?thesis by simp
qed

section \<open>Emptying and releasing a list\<close>

lemma vals_append [simp]: "vals h (xs @ ys) = vals h xs @ vals h ys"
  by (induction xs) (simp_all split: option.split)

lemma vals_cong:
  "(\<And>x. x \<in> set xs \<Longrightarrow> map_option value (h' x) = map_option value (h x)) \<Longrightarrow>
   vals h' xs = vals h xs"
proof (induction xs)
  case Nil
  then show ?case by simp
next
  case (Cons x xs)
  from Cons.prems [of x] have "map_option value (h' x) = map_option value (h x)" by simp
  moreover from Cons have "vals h' xs = vals h xs" by simp
  ultimately show ?case by (cases "h x"; cases "h' x") simp_all
qed

lemma release_all_Nil [simp]: "release_all f [] w = w"
  by (cases f) simp_all

lemma call_free_simps [simp]:
  "nodes (call_free L v s) = nodes s" "headers (call_free L v s) = headers s"
  "iters (call_free L v s) = iters s"
  "world (call_free L v s) = release_all (free L) [v] (world s)"
  by (simp_all add: call_free_def split: option.split)

lemma release_all_Cons: "release_all f (v # vs) w = release_all f vs (release_all f [v] w)"
  by (cases f) simp_all

lemma listEmpty_loop_ok:
  assumes "chain (nodes s) p bs NULL" "distinct bs" "unat n = length bs" "headers s lp = Some L"
  shows "\<exists>s'. listEmpty_loop lp n (first_or bs NULL) s = Some s' \<and>
           (\<forall>x. nodes s' x = (if x \<in> set bs then None else nodes s x)) \<and>
           headers s' = headers s \<and> iters s' = iters s \<and>
           world s' = release_all (free L) (vals (nodes s) bs) (world s)"
  using assms
proof (induction bs arbitrary: p n s)
  case Nil
  then have "n = 0" by (simp add: unat_eq_zero)
  then show ?case by (simp add: listEmpty_loop.simps)
next
  case (Cons b bs)
  from Cons.prems(1) obtain nb where nb: "nodes s b = Some nb" "next nb = first_or bs NULL"
    "chain (nodes s) b bs NULL"
    by (auto split: option.splits)
  from Cons.prems(3) have n: "n \<noteq> 0" "unat (n - 1) = length bs"
    by (auto simp: unat_len_pred)
  let ?s1 = "zfree_node b (call_free L (value nb) s)"
  from Cons.prems(2) have d: "b \<notin> set bs" "distinct bs" by simp_all
  have c1: "chain (nodes ?s1) b bs NULL"
    using nb(3) d(1) by (simp add: zfree_node_def)
  have h1: "headers ?s1 lp = Some L"
    using Cons.prems(4) by (simp add: zfree_node_def)
  from Cons.IH [OF c1 d(2) n(2) h1] obtain s' where
    s': "listEmpty_loop lp (n - 1) (first_or bs NULL) ?s1 = Some s'"
      "\<forall>x. nodes s' x = (if x \<in> set bs then None else nodes ?s1 x)"
      "headers s' = headers ?s1" "iters s' = iters ?s1"
      "world s' = release_all (free L) (vals (nodes ?s1) bs) (world ?s1)"
    by (elim exE conjE) (rule that; assumption)
  have v: "vals (nodes ?s1) bs = vals (nodes s) bs"
    using d(1) by (intro vals_cong) (auto simp: zfree_node_def)
  have "listEmpty_loop lp n (first_or (b # bs) NULL) s = Some s'"
    using n(1) nb Cons.prems(4) s'(1) by (simp add: listEmpty_loop.simps [of lp n b])
  moreover have "\<forall>x. nodes s' x = (if x \<in> set (b # bs) then None else nodes s x)"
    using s'(2) by (simp add: zfree_node_def)
  moreover have "headers s' = headers s" "iters s' = iters s"
    using s'(3,4) by (simp_all add: zfree_node_def)
  moreover have "world s' = release_all (free L) (vals (nodes s) (b # bs)) (world s)"
  proof -
    have "release_all (free L) (value nb # vals (nodes s) bs) (world s)
        = release_all (free L) (vals (nodes s) bs) (release_all (free L) [value nb] (world s))"
      by (rule release_all_Cons)
    with s'(5) v nb(1) show ?thesis by (simp add: zfree_node_def)
  qed
  ultimately show ?case by blast
qed

lemma listEmpty_ok:
  assumes inv: "list_inv s lp xs"
  shows "\<exists>s' L. listEmpty s lp = Some s' \<and> list_inv s' lp [] \<and> headers s lp = Some L \<and>
           (\<forall>x. nodes s' x = (if x \<in> set xs then None else nodes s x)) \<and>
           headers s' = (headers s)(lp \<mapsto> L\<lparr>head := NULL, tail := NULL, len := 0\<rparr>) \<and>
           iters s' = iters s \<and>
           world s' = release_all (free L) (vals (nodes s) xs) (world s)"
proof -
  from inv obtain L where L: "headers s lp = Some L" "distinct xs" "chain (nodes s) NULL xs NULL"
    "head L = first_or xs NULL" "tail L = last_or xs NULL" "unat (len L) = length xs"
    by (rule list_invD)
  from listEmpty_loop_ok [OF L(3,2,6,1)] obtain s1 where
    s1: "listEmpty_loop lp (len L) (first_or xs NULL) s = Some s1"
      "\<forall>x. nodes s1 x = (if x \<in> set xs then None else nodes s x)"
      "headers s1 = headers s" "iters s1 = iters s"
      "world s1 = release_all (free L) (vals (nodes s) xs) (world s)"
    by (elim exE conjE) (rule that; assumption)
  with L show ?thesis
    by (simp add: listEmpty_def upd_list_def list_inv_def)
qed

lemma listRelease_ok:
  assumes inv: "list_inv s lp xs"
  shows "\<exists>s' L. listRelease s lp = Some s' \<and> headers s lp = Some L \<and>
           (\<forall>x. nodes s' x = (if x \<in> set xs then None else nodes s x)) \<and>
           headers s' = (headers s)(lp := None) \<and>
           iters s' = iters s \<and>
           world s' = release_all (free L) (vals (nodes s) xs) (world s)"
proof -
  from listEmpty_ok [OF inv] obtain s1 L where
    "listEmpty s lp = Some s1" "headers s lp = Some L"
    "\<forall>x. nodes s1 x = (if x \<in> set xs then None else nodes s x)"
    "headers s1 = (headers s)(lp \<mapsto> L\<lparr>head := NULL, tail := NULL, len := 0\<rparr>)"
    "iters s1 = iters s"
    "world s1 = release_all (free L) (vals (nodes s) xs) (world s)"
    by (elim exE conjE) (rule that; assumption)
  then show ?thesis by (simp add: listRelease_def)
qed

section \<open>Deletion\<close>

lemma listDelNode_ok:
  assumes inv: "list_inv s lp (as @ node # bs)"
  shows "\<exists>s' L L' n. listDelNode s lp node = Some s' \<and> list_inv s' lp (as @ bs) \<and>
           headers s lp = Some L \<and> nodes s node = Some n \<and>
           world s' = (case free L of None \<Rightarrow> world s | Some f \<Rightarrow> f (value n) (world s)) \<and>
           nodes s' node = None \<and>
           (\<forall>x. x \<notin> set (as @ node # bs) \<longrightarrow> nodes s' x = nodes s x) \<and>
           (\<forall>x. x \<noteq> node \<longrightarrow> map_option value (nodes s' x) = map_option value (nodes s x)) \<and>
           (\<forall>lq. lq \<noteq> lp \<longrightarrow> headers s' lq = headers s lq) \<and>
           headers s' lp = Some L' \<and>
           len L' = len L - 1 \<and> dup L' = dup L \<and> free L' = free L \<and> match L' = match L \<and>
           iters s' = iters s"
proof -
  let ?xs = "as @ node # bs"
  from inv obtain L where L: "headers s lp = Some L" "distinct ?xs" "chain (nodes s) NULL ?xs NULL"
    "head L = first_or ?xs NULL" "tail L = last_or ?xs NULL" "unat (len L) = length ?xs"
    by (rule list_invD)
  have nn: "NULL \<notin> set ?xs" using L(3) by (rule chain_not_NULL)
  from L(6) have len: "unat (len L - 1) = length (as @ bs)"
    by (intro unat_len_pred) simp
  from L(3) have c1: "chain (nodes s) NULL as node"
    and c2: "chain (nodes s) (last_or as NULL) (node # bs) NULL"
    by (simp_all add: chain_append)
  from c2 obtain n where n: "nodes s node = Some n" "prev n = last_or as NULL"
    "next n = first_or bs NULL" "chain (nodes s) node bs NULL" "node \<noteq> NULL"
    by (rule chain_ConsD)
  from L(2) have d: "node \<notin> set as" "node \<notin> set bs" "distinct as" "distinct bs"
    "set as \<inter> set bs = {}"
    by auto
  show ?thesis
  proof (cases as rule: rev_cases)
    case Nil
    note as = Nil
    show ?thesis
    proof (cases bs)
      case Nil
      with as L n d len show ?thesis
        by (simp add: listDelNode_def upd_list_def upd_node_def list_inv_def zfree_node_def
            call_free_def split: option.splits)
    next
      case (Cons b bs')
      with n(4) obtain nb where nb: "nodes s b = Some nb" "prev nb = node"
        "next nb = first_or bs' NULL" "chain (nodes s) b bs' NULL" "b \<noteq> NULL"
        by (auto split: option.splits)
      from d Cons L(2) have d': "b \<noteq> node" "b \<notin> set bs'" "node \<notin> set bs'" by auto
      with as Cons L n nb d len show ?thesis
        by (simp add: listDelNode_def upd_list_def upd_node_def list_inv_def zfree_node_def
            call_free_def split: option.splits)
    qed
  next
    case (snoc as' a)
    note as = snoc
    with c1 obtain na where na: "nodes s a = Some na" "prev na = last_or as' NULL"
      "next na = node" "chain (nodes s) NULL as' a" "a \<noteq> NULL"
      by (auto simp: chain_append split: option.splits)
    from d as L(2) have da: "a \<noteq> node" "a \<notin> set as'" "node \<notin> set as'" "a \<notin> set bs" by auto
    show ?thesis
    proof (cases bs)
      case Nil
      with as L n na d da len show ?thesis
        by (simp add: listDelNode_def upd_list_def upd_node_def list_inv_def zfree_node_def
            call_free_def chain_append split: option.splits)
    next
      case (Cons b bs')
      with n(4) obtain nb where nb: "nodes s b = Some nb" "prev nb = node"
        "next nb = first_or bs' NULL" "chain (nodes s) b bs' NULL" "b \<noteq> NULL"
        by (auto split: option.splits)
      from d Cons L(2) as have d': "b \<noteq> node" "b \<notin> set bs'" "node \<notin> set bs'" "a \<noteq> b"
        "b \<notin> set as'" "a \<notin> set bs'"
        by auto
      with as Cons L n na nb d da len show ?thesis
        by (simp add: listDelNode_def upd_list_def upd_node_def list_inv_def zfree_node_def
            call_free_def chain_append split: option.splits)
    qed
  qed
qed

lemma dom_after_free:
  assumes "nodes s' node = None"
    and "\<forall>x. x \<noteq> node \<longrightarrow> map_option value (nodes s' x) = map_option value (nodes s x)"
  shows "dom (nodes s') = dom (nodes s) - {node}"
proof -
  have *: "nodes s' x = None \<longleftrightarrow> nodes s x = None" if "x \<noteq> node" for x
    using assms(2) that by (metis option.map_disc_iff)
  have "x \<in> dom (nodes s') \<longleftrightarrow> x \<in> dom (nodes s) - {node}" for x
    using * [of x] assms(1) by (cases "x = node") (auto simp: dom_def)
  then show ?thesis by blast
qed

text \<open>
  Claim C4. On a valid list whose node sequence is \<open>as @ node # bs\<close>, \<^verbatim>\<open>listDelNode\<close>
  returns; the sequence becomes \<open>as @ bs\<close> (the neighbours are reconnected, head and
  tail follow when \<open>node\<close> was first or last, the other nodes keep their order and
  their values); \<open>node\<close> is freed and no other node is; the release callback, if
  installed, runs once, on the value of \<open>node\<close>, and the world is untouched otherwise;
  the stored length goes down by one.
\<close>

theorem C4_delete:
  assumes inv: "list_inv s lp (as @ node # bs)"
  shows "\<exists>s' L L' n. listDelNode s lp node = Some s' \<and>
           headers s lp = Some L \<and> nodes s node = Some n \<and> headers s' lp = Some L' \<and>
           list_inv s' lp (as @ bs) \<and>
           dom (nodes s') = dom (nodes s) - {node} \<and>
           (\<forall>x. x \<noteq> node \<longrightarrow> map_option value (nodes s' x) = map_option value (nodes s x)) \<and>
           world s' = (case free L of None \<Rightarrow> world s | Some f \<Rightarrow> f (value n) (world s)) \<and>
           len L' = len L - 1 \<and> Suc (unat (len L')) = unat (len L) \<and>
           (\<forall>lq. lq \<noteq> lp \<longrightarrow> headers s' lq = headers s lq) \<and> iters s' = iters s"
proof -
  from listDelNode_ok [OF inv] obtain s' L L' n where
    r: "listDelNode s lp node = Some s'" "list_inv s' lp (as @ bs)"
      "headers s lp = Some L" "nodes s node = Some n"
      "world s' = (case free L of None \<Rightarrow> world s | Some f \<Rightarrow> f (value n) (world s))"
      "nodes s' node = None"
      "\<forall>x. x \<noteq> node \<longrightarrow> map_option value (nodes s' x) = map_option value (nodes s x)"
      "\<forall>lq. lq \<noteq> lp \<longrightarrow> headers s' lq = headers s lq"
      "headers s' lp = Some L'" "len L' = len L - 1" "iters s' = iters s"
    by blast
  have d: "dom (nodes s') = dom (nodes s) - {node}"
    using r(6,7) by (rule dom_after_free)
  have l: "Suc (unat (len L')) = unat (len L)"
    using inv r(2,3,9) by (simp add: list_inv_def)
  from r d l show ?thesis by blast
qed

theorem C4_delete_witness:
  "list_inv demo 1 ([10] @ 11 # [12]) \<and>
   (\<exists>s'. listDelNode demo 1 11 = Some s' \<and> list_inv s' 1 [10, 12] \<and> world s' = [101] \<and>
      dom (nodes s') = dom (nodes demo) - {11})"
proof -
  have inv: "list_inv demo 1 ([10] @ 11 # [12])"
    by (simp add: demo_def list_inv_def)
  from C4_delete [OF inv] obtain s' L n where
    r: "listDelNode demo 1 11 = Some s'" "headers demo 1 = Some L" "nodes demo 11 = Some n"
      "list_inv s' 1 ([10] @ [12])" "dom (nodes s') = dom (nodes demo) - {11}"
      "world s' = (case free L of None \<Rightarrow> world demo | Some f \<Rightarrow> f (value n) (world demo))"
    by blast
  from r(2,3,6) have "world s' = [101]"
    by (auto simp: demo_def)
  with inv r show ?thesis by simp
qed

section \<open>Rotation\<close>

lemma listRotate_noop:
  "headers s lp = Some L \<Longrightarrow> len L \<le> 1 \<Longrightarrow> listRotate s lp = Some s"
  by (simp add: listRotate_def)

lemma listRotate_ok:
  assumes inv: "list_inv s lp (ys @ [t])" and ys: "ys \<noteq> []"
  shows "\<exists>s' L L'. listRotate s lp = Some s' \<and> list_inv s' lp (t # ys) \<and>
           (\<forall>x. x \<notin> set (ys @ [t]) \<longrightarrow> nodes s' x = nodes s x) \<and>
           (\<forall>x. map_option value (nodes s' x) = map_option value (nodes s x)) \<and>
           (\<forall>lq. lq \<noteq> lp \<longrightarrow> headers s' lq = headers s lq) \<and>
           headers s lp = Some L \<and> headers s' lp = Some L' \<and>
           len L' = len L \<and> dup L' = dup L \<and> free L' = free L \<and> match L' = match L \<and>
           iters s' = iters s \<and> world s' = world s"
proof -
  let ?xs = "ys @ [t]"
  from inv obtain L where L: "headers s lp = Some L" "distinct ?xs" "chain (nodes s) NULL ?xs NULL"
    "head L = first_or ?xs NULL" "tail L = last_or ?xs NULL" "unat (len L) = length ?xs"
    by (rule list_invD)
  from ys L(6) have "2 \<le> unat (len L)" by (cases ys) auto
  then have big: "\<not> len L \<le> 1" by (simp add: word_le_nat_alt)
  from L(3) obtain nt where nt: "nodes s t = Some nt" "prev nt = last_or ys NULL"
    "next nt = NULL" "chain (nodes s) NULL ys t" "t \<noteq> NULL"
    by (auto simp: chain_append split: option.splits)
  from ys obtain h mid where hm: "ys = h # mid" by (cases ys) auto
  with nt(4) obtain nh where nh: "nodes s h = Some nh" "prev nh = NULL"
    "next nh = first_or mid t" "chain (nodes s) h mid t" "h \<noteq> NULL"
    by (auto split: option.splits)
  from L(2) hm have d: "h \<noteq> t" "t \<notin> set mid" "h \<notin> set mid" "distinct mid" by auto
  show ?thesis
  proof (cases mid rule: rev_cases)
    case Nil
    with hm L big nt nh d show ?thesis
      by (simp add: listRotate_def upd_list_def upd_node_def list_inv_def)
  next
    case (snoc mid' m)
    with nh(4) obtain nm where nm: "nodes s m = Some nm" "prev nm = last_or mid' h"
      "next nm = t" "chain (nodes s) h mid' m" "m \<noteq> NULL"
      by (auto simp: chain_append split: option.splits)
    from d snoc have d': "m \<noteq> t" "m \<noteq> h" "m \<notin> set mid'" "t \<notin> set mid'" "h \<notin> set mid'"
      by auto
    with snoc hm L big nt nh nm d show ?thesis
      by (simp add: listRotate_def upd_list_def upd_node_def list_inv_def chain_append)
  qed
qed

text \<open>
  Claim C8. \<^verbatim>\<open>listRotate\<close> on a valid list of length 0 or 1 returns the store as it
  was. On a valid list of length at least 2, with node sequence \<open>ys @ [t]\<close>, the
  sequence becomes \<open>t # ys\<close>: the former tail is the head and the other nodes keep their
  order. The set of allocated nodes and every node's value are unchanged.
\<close>

theorem C8_rotate:
  "(list_inv s lp xs \<and> length xs \<le> 1 \<longrightarrow> listRotate s lp = Some s) \<and>
   (list_inv s lp (ys @ [t]) \<and> ys \<noteq> [] \<longrightarrow>
      (\<exists>s'. listRotate s lp = Some s' \<and> list_inv s' lp (t # ys) \<and>
         dom (nodes s') = dom (nodes s) \<and>
         (\<forall>x. map_option value (nodes s' x) = map_option value (nodes s x)) \<and>
         (\<forall>lq. lq \<noteq> lp \<longrightarrow> headers s' lq = headers s lq) \<and>
         iters s' = iters s \<and> world s' = world s))"
proof (intro conjI impI)
  assume a: "list_inv s lp xs \<and> length xs \<le> 1"
  then obtain L where L: "headers s lp = Some L" "unat (len L) = length xs"
    by (auto elim: list_invD)
  with a have "len L \<le> 1" by (simp add: word_le_nat_alt)
  with L(1) show "listRotate s lp = Some s" by (rule listRotate_noop)
next
  assume a: "list_inv s lp (ys @ [t]) \<and> ys \<noteq> []"
  then have inv: "list_inv s lp (ys @ [t])" and ys: "ys \<noteq> []" by simp_all
  from listRotate_ok [OF inv ys] obtain s' where
    r: "listRotate s lp = Some s'" "list_inv s' lp (t # ys)"
      "\<forall>x. map_option value (nodes s' x) = map_option value (nodes s x)"
      "\<forall>lq. lq \<noteq> lp \<longrightarrow> headers s' lq = headers s lq"
      "iters s' = iters s" "world s' = world s"
    by blast
  from r(3) have "dom (nodes s') = dom (nodes s)" by (rule dom_same_values)
  with r show "\<exists>s'. listRotate s lp = Some s' \<and> list_inv s' lp (t # ys) \<and>
         dom (nodes s') = dom (nodes s) \<and>
         (\<forall>x. map_option value (nodes s' x) = map_option value (nodes s x)) \<and>
         (\<forall>lq. lq \<noteq> lp \<longrightarrow> headers s' lq = headers s lq) \<and>
         iters s' = iters s \<and> world s' = world s"
    by blast
qed

theorem C8_rotate_witness:
  "list_inv demo 3 [] \<and> listRotate demo 3 = Some demo \<and>
   list_inv demo 1 ([10, 11] @ [12]) \<and>
   (\<exists>s'. listRotate demo 1 = Some s' \<and> list_inv s' 1 [12, 10, 11] \<and>
      dom (nodes s') = dom (nodes demo) \<and>
      (\<forall>x. map_option value (nodes s' x) = map_option value (nodes demo x)) \<and>
      (\<forall>lq. lq \<noteq> 1 \<longrightarrow> headers s' lq = headers demo lq) \<and>
      iters s' = iters demo \<and> world s' = world demo)"
proof -
  have inv3: "list_inv demo 3 []" and inv1: "list_inv demo 1 ([10, 11] @ [12])"
    by (simp_all add: demo_def list_inv_def)
  from C8_rotate [of demo 3 "[]"] inv3 have "listRotate demo 3 = Some demo" by simp
  moreover from C8_rotate [of demo 1 _ "[10, 11]" 12] inv1
  have "\<exists>s'. listRotate demo 1 = Some s' \<and> list_inv s' 1 [12, 10, 11] \<and>
      dom (nodes s') = dom (nodes demo) \<and>
      (\<forall>x. map_option value (nodes s' x) = map_option value (nodes demo x)) \<and>
      (\<forall>lq. lq \<noteq> 1 \<longrightarrow> headers s' lq = headers demo lq) \<and>
      iters s' = iters demo \<and> world s' = world demo"
    by simp
  ultimately show ?thesis using inv3 inv1 by blast
qed

section \<open>Join\<close>

lemma listJoin_empty_other:
  assumes l: "list_inv s l xs" and o: "list_inv s other []" and ne: "l \<noteq> other"
  shows "listJoin s l other = Some s"
proof -
  from l obtain L where L: "headers s l = Some L" "chain (nodes s) NULL xs NULL"
    "head L = first_or xs NULL" "tail L = last_or xs NULL"
    by (rule list_invD)
  from o obtain M where O: "headers s other = Some M" "head M = NULL" "tail M = NULL" "len M = 0"
    by (auto elim!: list_invD simp: unat_eq_zero)
  show ?thesis
  proof (cases "xs = []")
    case True
    with L O ne show ?thesis
      by (simp add: listJoin_def upd_list_def upd_node_def list_t_upd_same map_upd_triv)
  next
    case False
    from chain_last_node [OF L(2) False] obtain n where
      n: "nodes s (last_or xs NULL) = Some n" "next n = NULL" by auto
    from chain_not_NULL [OF L(2)] False have "last_or xs NULL \<noteq> NULL"
      by (simp add: last_or_NULL_iff)
    with L O ne n show ?thesis
      by (simp add: listJoin_def upd_list_def upd_node_def list_t_upd_same listNode_upd_same map_upd_triv)
  qed
qed

lemma len_after_join:
  fixes w v :: "64 word" and xs ys :: "ptr list"
  assumes "unat w = length xs" "unat v = length ys" "distinct (xs @ ys)" "NULL \<notin> set (xs @ ys)"
  shows "unat (w + v) = length xs + length ys"
proof -
  have "length (xs @ ys) \<le> 2 ^ 64 - 1"
    using assms(3,4) by (rule distinct_ptrs_length)
  then have "unat w + unat v < 2 ^ LENGTH(64)" using assms(1,2) by simp
  then have "unat (w + v) = unat w + unat v" by (simp only: unat_add_lem)
  with assms show ?thesis by simp
qed

lemma listJoin_ok:
  assumes l: "list_inv s l xs" and o: "list_inv s other ys" and ne: "l \<noteq> other"
    and disj: "set xs \<inter> set ys = {}"
  shows "\<exists>s' L M L'. listJoin s l other = Some s' \<and> list_inv s' l (xs @ ys) \<and>
           list_inv s' other [] \<and>
           (\<forall>x. x \<notin> set xs \<union> set ys \<longrightarrow> nodes s' x = nodes s x) \<and>
           (\<forall>x. map_option value (nodes s' x) = map_option value (nodes s x)) \<and>
           (\<forall>lq. lq \<noteq> l \<longrightarrow> lq \<noteq> other \<longrightarrow> headers s' lq = headers s lq) \<and>
           headers s l = Some L \<and> headers s other = Some M \<and> headers s' l = Some L' \<and>
           headers s' other = Some (M\<lparr>head := NULL, tail := NULL, len := 0\<rparr>) \<and>
           len L' = len L + len M \<and> dup L' = dup L \<and> free L' = free L \<and> match L' = match L \<and>
           iters s' = iters s \<and> world s' = world s"
proof -
  from l obtain L where L: "headers s l = Some L" "distinct xs" "chain (nodes s) NULL xs NULL"
    "head L = first_or xs NULL" "tail L = last_or xs NULL" "unat (len L) = length xs"
    by (rule list_invD)
  from o obtain M where M: "headers s other = Some M" "distinct ys" "chain (nodes s) NULL ys NULL"
    "head M = first_or ys NULL" "tail M = last_or ys NULL" "unat (len M) = length ys"
    by (rule list_invD)
  have nn: "NULL \<notin> set (xs @ ys)"
    using chain_not_NULL [OF L(3)] chain_not_NULL [OF M(3)] by simp
  have dist: "distinct (xs @ ys)" using L(2) M(2) disj by simp
  note len = len_after_join [OF L(6) M(6) dist nn]
  show ?thesis
  proof (cases ys)
    case Nil
    with M have "len M = 0" by (simp add: unat_eq_zero)
    from o Nil have "list_inv s other []" by simp
    from listJoin_empty_other [OF l this ne] l o Nil L M \<open>len M = 0\<close> show ?thesis
      by (simp add: list_t_upd_same)
  next
    case (Cons y ys')
    with M(3) obtain ny where ny: "nodes s y = Some ny" "prev ny = NULL"
      "next ny = first_or ys' NULL" "chain (nodes s) y ys' NULL" "y \<noteq> NULL"
      by (auto split: option.splits)
    from Cons have tlM: "last_or ys NULL \<noteq> NULL"
      using nn last_or_in_set [of ys NULL] by auto
    from Cons M(2) disj have dy: "y \<notin> set ys'" "y \<notin> set xs" "set xs \<inter> set ys' = {}" by auto
    show ?thesis
    proof (cases xs rule: rev_cases)
      case Nil
      with Cons L M ne ny tlM dy len show ?thesis
        by (simp add: listJoin_def upd_list_def upd_node_def list_inv_def)
    next
      case (snoc xs' t)
      with L(3) obtain nt where nt: "nodes s t = Some nt" "prev nt = last_or xs' NULL"
        "next nt = NULL" "chain (nodes s) NULL xs' t" "t \<noteq> NULL"
        by (auto simp: chain_append split: option.splits)
      from snoc L(2) dy disj Cons have dt: "t \<notin> set xs'" "t \<noteq> y" "t \<notin> set ys'" "y \<notin> set xs'"
        "set xs' \<inter> set ys' = {}"
        by auto
      with snoc Cons L M ne ny nt tlM dy len show ?thesis
        by (simp add: listJoin_def upd_list_def upd_node_def list_inv_def chain_append)
    qed
  qed
qed

text \<open>
  Claim C5. For two distinct valid lists with node sequences \<open>xs\<close> and \<open>ys\<close> (no
  node in both), \<^verbatim>\<open>listJoin\<close> returns; the node sequence of the destination is then
  \<open>xs @ ys\<close>, made of the very same nodes with the values they held, and that is what
  following \<^verbatim>\<open>next\<close> from its head visits; its stored length is the sum of the two
  stored lengths, without wrap-around; the source has head and tail \<open>NULL\<close> and length
  0, it is a valid empty list, and a later \<^verbatim>\<open>listAddNodeTail\<close> on it succeeds.
\<close>

theorem C5_join:
  assumes l: "list_inv s l xs" and o: "list_inv s other ys" and ne: "l \<noteq> other"
    and disj: "set xs \<inter> set ys = {}"
  shows "\<exists>s' L M L' M'. listJoin s l other = Some s' \<and>
           headers s l = Some L \<and> headers s other = Some M \<and>
           headers s' l = Some L' \<and> headers s' other = Some M' \<and>
           list_inv s' l (xs @ ys) \<and>
           walk next (nodes s') (length (xs @ ys)) (head L') = Some (xs @ ys) \<and>
           dom (nodes s') = dom (nodes s) \<and>
           (\<forall>x. map_option value (nodes s' x) = map_option value (nodes s x)) \<and>
           len L' = len L + len M \<and> unat (len L') = unat (len L) + unat (len M) \<and>
           head M' = NULL \<and> tail M' = NULL \<and> len M' = 0 \<and> list_inv s' other [] \<and>
           (\<forall>zm v. zm \<noteq> NULL \<and> nodes s' zm = None \<longrightarrow>
              (\<exists>s''. listAddNodeTail zm s' other v = Some (s'', other) \<and>
                 list_inv s'' other [zm] \<and> list_inv s'' l (xs @ ys)))"
proof -
  from listJoin_ok [OF l o ne disj] obtain s' L M L' where
    r: "listJoin s l other = Some s'" "list_inv s' l (xs @ ys)" "list_inv s' other []"
      "\<forall>x. map_option value (nodes s' x) = map_option value (nodes s x)"
      "headers s l = Some L" "headers s other = Some M" "headers s' l = Some L'"
      "headers s' other = Some (M\<lparr>head := NULL, tail := NULL, len := 0\<rparr>)"
      "len L' = len L + len M"
    by blast
  have w: "walk next (nodes s') (length (xs @ ys)) (head L') = Some (xs @ ys)"
    using r(2,7) by (rule list_inv_walks) simp
  have d: "dom (nodes s') = dom (nodes s)" using r(4) by (rule dom_same_values)
  have u: "unat (len L') = unat (len L) + unat (len M)"
    using l o r(2,5,6,7) by (simp add: list_inv_def)
  have ins: "\<exists>s''. listAddNodeTail zm s' other v = Some (s'', other) \<and>
                 list_inv s'' other [zm] \<and> list_inv s'' l (xs @ ys)"
    if zm: "zm \<noteq> NULL \<and> nodes s' zm = None" for zm v
  proof -
    from zm have z: "zm \<noteq> NULL" "nodes s' zm = None" by simp_all
    from listAddNodeTail_ok [OF r(3) z, of v] obtain s'' where
      a: "listAddNodeTail zm s' other v = Some (s'', other)" "list_inv s'' other ([] @ [zm])"
        "\<forall>x. x \<noteq> zm \<longrightarrow> x \<notin> set [] \<longrightarrow> nodes s'' x = nodes s' x"
        "\<forall>lq. lq \<noteq> other \<longrightarrow> headers s'' lq = headers s' lq"
      by blast
    from r(2) have "chain (nodes s') NULL (xs @ ys) NULL" by (rule list_invD)
    from this z(2) have "zm \<notin> set (xs @ ys)" by (rule fresh_not_in_chain)
    with a(3) have n: "\<forall>x. x \<in> set (xs @ ys) \<longrightarrow> nodes s'' x = nodes s' x" by auto
    from a(4) ne have h: "headers s'' l = headers s' l" by simp
    from r(2) h n have "list_inv s'' l (xs @ ys)" by (rule list_inv_frame)
    with a show ?thesis by simp
  qed
  show ?thesis
  proof (intro exI conjI)
    show "listJoin s l other = Some s'" by fact
    show "headers s l = Some L" by fact
    show "headers s other = Some M" by fact
    show "headers s' l = Some L'" by fact
    show "headers s' other = Some (M\<lparr>head := NULL, tail := NULL, len := 0\<rparr>)" by fact
    show "list_inv s' l (xs @ ys)" by fact
    show "walk next (nodes s') (length (xs @ ys)) (head L') = Some (xs @ ys)" by fact
    show "dom (nodes s') = dom (nodes s)" by fact
    show "\<forall>x. map_option value (nodes s' x) = map_option value (nodes s x)" by fact
    show "len L' = len L + len M" by fact
    show "unat (len L') = unat (len L) + unat (len M)" by fact
    show "head (M\<lparr>head := NULL, tail := NULL, len := 0\<rparr>) = NULL" by simp
    show "tail (M\<lparr>head := NULL, tail := NULL, len := 0\<rparr>) = NULL" by simp
    show "len (M\<lparr>head := NULL, tail := NULL, len := 0\<rparr>) = 0" by simp
    show "list_inv s' other []" by fact
    show "\<forall>zm v. zm \<noteq> NULL \<and> nodes s' zm = None \<longrightarrow>
              (\<exists>s''. listAddNodeTail zm s' other v = Some (s'', other) \<and>
                 list_inv s'' other [zm] \<and> list_inv s'' l (xs @ ys))"
      using ins by blast
  qed
qed

theorem C5_join_witness:
  "list_inv demo 1 [10, 11, 12] \<and> list_inv demo 2 [20, 21] \<and>
   (\<exists>s' L'. listJoin demo 1 2 = Some s' \<and> headers s' 1 = Some L' \<and>
      walk next (nodes s') (length ([10, 11, 12] @ [20, 21 :: ptr])) (head L')
        = Some ([10, 11, 12] @ [20, 21]) \<and>
      len L' = 5 \<and>
      list_inv s' 2 [])"
proof -
  have inv: "list_inv demo 1 [10, 11, 12]" "list_inv demo 2 [20, 21]"
    by (simp_all add: demo_def list_inv_def)
  have ne: "(1 :: ptr) \<noteq> 2" "set [10, 11, 12 :: ptr] \<inter> set [20, 21] = {}"
    by simp_all
  from C5_join [OF inv ne] obtain s' L M L' where
    r: "listJoin demo 1 2 = Some s'" "headers demo 1 = Some L" "headers demo 2 = Some M"
      "headers s' 1 = Some L'"
      "walk next (nodes s') (length ([10, 11, 12] @ [20, 21 :: ptr])) (head L')
         = Some ([10, 11, 12] @ [20, 21])"
      "len L' = len L + len M" "list_inv s' 2 []"
    by blast
  from r(2,3) have "len L = 3" "len M = 2" by (auto simp: demo_def)
  with r(6) have "len L' = 5" by simp
  with r(1,4,5,7) inv show ?thesis by blast
qed

text \<open>
  Claim C10. Joining an empty list \<open>other\<close> (head and tail null, length 0) onto a
  valid list \<open>l\<close> distinct from it changes nothing: the resulting store is the store
  before the call, so the head, tail and length of \<open>l\<close> and every link of its nodes are
  as they were, and \<open>other\<close> is still the empty list.
\<close>

theorem C10_join_empty_other_unchanged:
  assumes "list_inv s l xs"
    and "headers s other = Some M" and "head M = NULL" and "tail M = NULL" and "len M = 0"
    and "l \<noteq> other"
  shows "listJoin s l other = Some s"
proof -
  from assms(2-5) have "list_inv s other []"
    by (simp add: list_inv_def)
  with assms(1) show ?thesis
    using assms(6) by (rule listJoin_empty_other)
qed

theorem C10_join_empty_other_unchanged_witness:
  "listJoin demo 1 3 = Some demo"
  by (rule C10_join_empty_other_unchanged [where xs = "[10, 11, 12]" and
        M = "\<lparr>head = NULL, tail = NULL, dup = None, free = None, match = None, len = 0\<rparr>"])
     (simp_all add: demo_def list_inv_def)

section \<open>Index\<close>

lemma listIndex_loop_next:
  "chain h p xs NULL \<Longrightarrow>
   listIndex_loop next h i (first_or xs NULL) = Some (if unat i < length xs then xs ! unat i else NULL)"
proof (induction xs arbitrary: p i)
  case Nil
  then show ?case by (simp add: listIndex_loop.simps)
next
  case (Cons x xs)
  from Cons.prems obtain nx where nx: "h x = Some nx" "next nx = first_or xs NULL"
    "chain h x xs NULL" "x \<noteq> NULL"
    by (auto split: option.splits)
  show ?case
  proof (cases "i = 0")
    case True
    then show ?thesis by (simp add: listIndex_loop.simps)
  next
    case False
    then obtain k where k: "unat i = Suc k" "unat (i - 1) = k"
      by (metis unat_gt_0 gr0_implies_Suc unat_len_pred)
    from False nx have "listIndex_loop next h i (first_or (x # xs) NULL)
        = listIndex_loop next h (i - 1) (first_or xs NULL)"
      by (simp add: listIndex_loop.simps [of _ _ i])
    with Cons.IH [OF nx(3), of "i - 1"] k show ?thesis by simp
  qed
qed

lemma listIndex_loop_prev:
  "chain h NULL xs q \<Longrightarrow>
   listIndex_loop prev h i (last_or xs NULL)
     = Some (if unat i < length xs then rev xs ! unat i else NULL)"
proof (induction xs arbitrary: q i rule: rev_induct)
  case Nil
  then show ?case by (simp add: listIndex_loop.simps)
next
  case (snoc x xs)
  from snoc.prems obtain nx where nx: "h x = Some nx" "prev nx = last_or xs NULL"
    "chain h NULL xs x" "x \<noteq> NULL"
    by (auto simp: chain_append split: option.splits)
  show ?case
  proof (cases "i = 0")
    case True
    then show ?thesis by (simp add: listIndex_loop.simps)
  next
    case False
    then obtain k where k: "unat i = Suc k" "unat (i - 1) = k"
      by (metis unat_gt_0 gr0_implies_Suc unat_len_pred)
    from False nx have "listIndex_loop prev h i (last_or (xs @ [x]) NULL)
        = listIndex_loop prev h (i - 1) (last_or xs NULL)"
      by (simp add: listIndex_loop.simps [of _ _ i])
    with snoc.IH [OF nx(3), of "i - 1"] k show ?thesis by simp
  qed
qed

text \<open>
  Claim C9. On a valid list with node sequence \<open>xs\<close>, \<^verbatim>\<open>listIndex\<close> returns for a
  non-negative index \<open>i\<close> the \<open>i\<close>-th node from the head when \<open>i < length xs\<close> and
  \<open>NULL\<close> otherwise, and for a negative index the \<open>(-i)\<close>-th node from the tail when
  \<open>-i \<le> length xs\<close> and \<open>NULL\<close> otherwise (so also at \<open>length xs\<close> and at
  \<open>- length xs - 1\<close>). Index 0 gives the head and index -1 the tail.
\<close>

theorem C9_index:
  assumes inv: "list_inv s lp xs" and L: "headers s lp = Some L"
  shows "listIndex s lp i =
           Some (if 0 \<le> sint i
                 then (if nat (sint i) < length xs then xs ! nat (sint i) else NULL)
                 else (if nat (- sint i) \<le> length xs then rev xs ! (nat (- sint i) - 1)
                       else NULL)) \<and>
         listIndex s lp 0 = Some (head L) \<and>
         listIndex s lp (- 1) = Some (tail L)"
proof -
  from inv L have c: "chain (nodes s) NULL xs NULL" "head L = first_or xs NULL"
    "tail L = last_or xs NULL"
    by (auto simp: list_inv_def)
  have g: "listIndex s lp i =
           Some (if 0 \<le> sint i
                 then (if nat (sint i) < length xs then xs ! nat (sint i) else NULL)
                 else (if nat (- sint i) \<le> length xs then rev xs ! (nat (- sint i) - 1)
                       else NULL))"
  proof (cases "0 \<le> sint i")
    case True
    with L c listIndex_loop_next [OF c(1), of i] show ?thesis
      by (simp add: listIndex_def unat_nonneg_long)
  next
    case False
    then have neg: "sint i < 0" by simp
    have "nat (- sint i - 1) = nat (- sint i) - 1" by simp
    moreover from neg have "nat (- sint i - 1) < length xs \<longleftrightarrow> nat (- sint i) \<le> length xs"
      by auto
    ultimately show ?thesis
      using L c neg listIndex_loop_prev [OF c(1), of "- i - 1"]
      by (simp add: listIndex_def unat_neg_long)
  qed
  have z: "listIndex s lp 0 = Some (head L)"
    using L by (simp add: listIndex_def listIndex_loop.simps)
  have m: "listIndex s lp (- 1) = Some (tail L)"
    using L by (simp add: listIndex_def listIndex_loop.simps)
  from g z m show ?thesis by simp
qed

theorem C9_index_witness:
  "list_inv demo 1 [10, 11, 12] \<and>
   listIndex demo 1 0 = Some 10 \<and> listIndex demo 1 1 = Some 11 \<and>
   listIndex demo 1 (- 1) = Some 12 \<and> listIndex demo 1 (- 3) = Some 10 \<and>
   listIndex demo 1 3 = Some NULL \<and> listIndex demo 1 (- 4) = Some NULL"
proof -
  have inv: "list_inv demo 1 [10, 11, 12]"
    by (simp add: demo_def list_inv_def)
  have L: "headers demo 1 = Some \<lparr>head = 10, tail = 12, dup = None,
      free = Some (\<lambda>v w. w @ [v]), match = None, len = 3\<rparr>"
    by (simp add: demo_def)
  note t = C9_index [OF inv L]
  from t [of 0] t [of 1] t [of "- 1"] t [of "- 3"] t [of 3] t [of "- 4"] inv
  show ?thesis by simp
qed

section \<open>Iteration\<close>

lemma listNext_at_end:
  "iters s ip = Some it \<Longrightarrow> it_next it = NULL \<Longrightarrow> listNext s ip = Some (s, NULL)"
  by (simp add: listNext_def next_it_def map_upd_triv)

lemma listNext_at_node:
  "iters s ip = Some it \<Longrightarrow> it_next it = c \<Longrightarrow> c \<noteq> NULL \<Longrightarrow> nodes s c = Some n \<Longrightarrow>
   listNext s ip =
     Some (s\<lparr>iters := (iters s)(ip \<mapsto>
             it\<lparr>it_next := (if direction it = AL_START_HEAD then next n else prev n)\<rparr>)\<rparr>, c)"
  by (simp add: listNext_def next_it_def)

lemma list_inv_mid:
  assumes "list_inv s lp (as @ c # bs)"
  obtains n where "nodes s c = Some n" "prev n = last_or as NULL" "next n = first_or bs NULL"
    "c \<noteq> NULL"
proof -
  from assms have "chain (nodes s) NULL (as @ c # bs) NULL" by (rule list_invD)
  then have "chain (nodes s) (last_or as NULL) (c # bs) NULL" by (simp add: chain_append)
  then show ?thesis by (rule chain_ConsD) (rule that)
qed

lemma listNext_in_list:
  assumes inv: "list_inv s lp (as @ c # bs)" and it: "iters s ip = Some it" "it_next it = c"
  shows "listNext s ip =
     Some (s\<lparr>iters := (iters s)(ip \<mapsto>
             it\<lparr>it_next := (if direction it = AL_START_HEAD then first_or bs NULL
                              else last_or as NULL)\<rparr>)\<rparr>, c)"
proof -
  from inv obtain n where "nodes s c = Some n" "prev n = last_or as NULL"
    "next n = first_or bs NULL" "c \<noteq> NULL"
    by (rule list_inv_mid)
  with listNext_at_node [OF it, of n] show ?thesis by simp
qed

lemma list_inv_iters_upd [simp]: "list_inv (s\<lparr>iters := i\<rparr>) lp xs = list_inv s lp xs"
  by (simp add: list_inv_def split: option.split)

lemma listNext_then_delete:
  assumes inv: "list_inv s lp (as @ c # bs)" and it: "iters s ip = Some it" "it_next it = c"
  shows "\<exists>s1 s2. listNext s ip = Some (s1, c) \<and> listDelNode s1 lp c = Some s2 \<and>
           list_inv s2 lp (as @ bs) \<and>
           iters s2 ip = Some (it\<lparr>it_next := (if direction it = AL_START_HEAD
                                               then first_or bs NULL else last_or as NULL)\<rparr>) \<and>
           nodes s2 c = None"
proof -
  let ?s1 = "s\<lparr>iters := (iters s)(ip \<mapsto>
             it\<lparr>it_next := (if direction it = AL_START_HEAD then first_or bs NULL
                              else last_or as NULL)\<rparr>)\<rparr>"
  have n: "listNext s ip = Some (?s1, c)" using inv it by (rule listNext_in_list)
  from inv have "list_inv ?s1 lp (as @ c # bs)" by simp
  from listDelNode_ok [OF this] obtain s2 where
    "listDelNode ?s1 lp c = Some s2" "list_inv s2 lp (as @ bs)" "iters s2 = iters ?s1"
    "nodes s2 c = None"
    by blast
  with n show ?thesis by simp
qed

lemma drain_forward:
  assumes "list_inv s lp (as @ bs)" "iters s ip = Some it" "it_next it = first_or bs NULL"
    "direction it = AL_START_HEAD"
  shows "\<exists>s'. drain (Suc (length bs)) s ip = Some (s', bs @ [NULL]) \<and>
           nodes s' = nodes s \<and> headers s' = headers s \<and> world s' = world s \<and>
           iters s' = (iters s)(ip \<mapsto> it\<lparr>it_next := NULL\<rparr>)"
  using assms
proof (induction bs arbitrary: as s it)
  case Nil
  then have "it\<lparr>it_next := NULL\<rparr> = it" by simp
  with Nil listNext_at_end [of s ip it] show ?case by (simp add: map_upd_triv)
next
  case (Cons b bs)
  let ?it = "it\<lparr>it_next := first_or bs NULL\<rparr>"
  let ?s1 = "s\<lparr>iters := (iters s)(ip \<mapsto> ?it)\<rparr>"
  from Cons.prems have n: "listNext s ip = Some (?s1, b)"
    using listNext_in_list [of s lp as b bs ip it] by simp
  from Cons.prems have "list_inv ?s1 lp ((as @ [b]) @ bs)" by simp
  moreover have "iters ?s1 ip = Some ?it" "it_next ?it = first_or bs NULL"
    "direction ?it = AL_START_HEAD"
    using Cons.prems(4) by simp_all
  ultimately have "\<exists>s'. drain (Suc (length bs)) ?s1 ip = Some (s', bs @ [NULL]) \<and>
           nodes s' = nodes ?s1 \<and> headers s' = headers ?s1 \<and> world s' = world ?s1 \<and>
           iters s' = (iters ?s1)(ip \<mapsto> ?it\<lparr>it_next := NULL\<rparr>)"
    by (rule Cons.IH)
  then obtain s' where
    d: "drain (Suc (length bs)) ?s1 ip = Some (s', bs @ [NULL])"
    and e: "nodes s' = nodes ?s1" "headers s' = headers ?s1" "world s' = world ?s1"
      "iters s' = (iters ?s1)(ip \<mapsto> ?it\<lparr>it_next := NULL\<rparr>)"
    by blast
  from e have s': "nodes s' = nodes s" "headers s' = headers s" "world s' = world s"
      "iters s' = (iters s)(ip \<mapsto> it\<lparr>it_next := NULL\<rparr>)"
    by simp_all
  have "drain (Suc (length (b # bs))) s ip
          = drain (Suc (length bs)) ?s1 ip \<bind> (\<lambda>(s2, ns). Some (s2, b # ns))"
    using n by (simp del: drain.simps add: drain.simps(2) [of "Suc (length bs)"])
  with d s' show ?case by (simp del: drain.simps add: fun_upd_def)
qed

lemma drain_del_forward:
  assumes "list_inv s lp (as @ bs)" "iters s ip = Some it" "it_next it = first_or bs NULL"
    "direction it = AL_START_HEAD"
  shows "\<exists>s'. drain_del (Suc (length bs)) s lp ip = Some (s', bs @ [NULL]) \<and> list_inv s' lp as"
  using assms
proof (induction bs arbitrary: s it)
  case Nil
  with listNext_at_end [of s ip it] show ?case by simp
next
  case (Cons b bs)
  let ?it = "it\<lparr>it_next := first_or bs NULL\<rparr>"
  from listNext_then_delete [OF Cons.prems(1,2)] Cons.prems(3,4) obtain s1 s2 where
    r: "listNext s ip = Some (s1, b)" "listDelNode s1 lp b = Some s2" "list_inv s2 lp (as @ bs)"
      "iters s2 ip = Some ?it" "nodes s2 b = None"
    by auto
  from Cons.prems(1) have bn: "b \<noteq> NULL" by (rule list_inv_mid)
  from Cons.IH [OF r(3,4)] Cons.prems(4) obtain s' where
    s': "drain_del (Suc (length bs)) s2 lp ip = Some (s', bs @ [NULL])" "list_inv s' lp as"
    by auto
  have "drain_del (Suc (length (b # bs))) s lp ip
          = drain_del (Suc (length bs)) s2 lp ip \<bind> (\<lambda>(s3, ns). Some (s3, b # ns))"
    using r(1,2) bn by (simp del: drain_del.simps add: drain_del.simps(2) [of "Suc (length bs)"])
  with s' show ?case by (simp del: drain_del.simps)
qed

lemma listGetIterator_ok:
  "headers s lp = Some L \<Longrightarrow> zm \<noteq> NULL \<Longrightarrow>
   listGetIterator zm s lp dir =
     Some (s\<lparr>iters := (iters s)(zm \<mapsto>
             \<lparr>it_next = (if dir = AL_START_HEAD then head L else tail L), direction = dir\<rparr>)\<rparr>, zm)"
  by (simp add: listGetIterator_def)

text \<open>
  Claim C6. On a valid list with node sequence \<open>xs\<close>, when the iterator's allocation
  succeeds, \<^verbatim>\<open>listGetIterator\<close> seats the cursor on the head for \<^verbatim>\<open>AL_START_HEAD\<close> and on
  the tail for \<^verbatim>\<open>AL_START_TAIL\<close>. \<^verbatim>\<open>listNext\<close> returns \<open>NULL\<close> and changes nothing when
  the cursor is \<open>NULL\<close>; when the cursor is the node \<open>c\<close> of \<open>xs = as @ c # bs\<close> it
  returns \<open>c\<close> and stores in the cursor the \<^verbatim>\<open>next\<close> link of \<open>c\<close> (forward) or its
  \<^verbatim>\<open>prev\<close> link (backward) as they are at the call. Deleting \<open>c\<close> right after leaves
  the cursor on the neighbour of \<open>c\<close> in the remaining list \<open>as @ bs\<close>. A forward
  iterator returns the nodes of \<open>xs\<close> in order, one per call, then \<open>NULL\<close>, also when
  each returned node is deleted before the next call.
\<close>

theorem C6_iteration:
  assumes inv: "list_inv s lp xs" and L: "headers s lp = Some L" and zm: "zm \<noteq> NULL"
  shows "listGetIterator zm s lp AL_START_HEAD =
           Some (s\<lparr>iters := (iters s)(zm \<mapsto>
                   \<lparr>it_next = head L, direction = AL_START_HEAD\<rparr>)\<rparr>, zm) \<and>
         listGetIterator zm s lp AL_START_TAIL =
           Some (s\<lparr>iters := (iters s)(zm \<mapsto>
                   \<lparr>it_next = tail L, direction = AL_START_TAIL\<rparr>)\<rparr>, zm) \<and>
         (iters s ip = Some it \<and> it_next it = NULL \<longrightarrow> listNext s ip = Some (s, NULL)) \<and>
         (iters s ip = Some it \<and> xs = as @ c # bs \<and> it_next it = c \<longrightarrow>
            (\<exists>n. nodes s c = Some n \<and>
               next n = first_or bs NULL \<and> prev n = last_or as NULL \<and>
               listNext s ip =
                 Some (s\<lparr>iters := (iters s)(ip \<mapsto>
                         it\<lparr>it_next := (if direction it = AL_START_HEAD then next n
                                          else prev n)\<rparr>)\<rparr>, c)) \<and>
            (\<exists>s1 s2. listNext s ip = Some (s1, c) \<and> listDelNode s1 lp c = Some s2 \<and>
               list_inv s2 lp (as @ bs) \<and>
               iters s2 ip = Some (it\<lparr>it_next := (if direction it = AL_START_HEAD
                                                   then first_or bs NULL
                                                   else last_or as NULL)\<rparr>))) \<and>
         (\<exists>s1 s'. listGetIterator zm s lp AL_START_HEAD = Some (s1, zm) \<and>
            drain (Suc (length xs)) s1 zm = Some (s', xs @ [NULL])) \<and>
         (\<exists>s1 s'. listGetIterator zm s lp AL_START_HEAD = Some (s1, zm) \<and>
            drain_del (Suc (length xs)) s1 lp zm = Some (s', xs @ [NULL]) \<and>
            list_inv s' lp [])"
proof -
  let ?it = "\<lparr>it_next = head L, direction = AL_START_HEAD\<rparr>"
  let ?s1 = "s\<lparr>iters := (iters s)(zm \<mapsto> ?it)\<rparr>"
  have g1: "listGetIterator zm s lp AL_START_HEAD = Some (?s1, zm)"
    using listGetIterator_ok [OF L zm, of AL_START_HEAD] by simp
  have g2: "listGetIterator zm s lp AL_START_TAIL =
           Some (s\<lparr>iters := (iters s)(zm \<mapsto>
                   \<lparr>it_next = tail L, direction = AL_START_TAIL\<rparr>)\<rparr>, zm)"
    using listGetIterator_ok [OF L zm, of AL_START_TAIL]
    by (simp add: AL_START_HEAD_def AL_START_TAIL_def)
  have n0: "listNext s ip = Some (s, NULL)" if "iters s ip = Some it \<and> it_next it = NULL"
    using that by (auto intro: listNext_at_end)
  have n1: "\<exists>n. nodes s c = Some n \<and>
               next n = first_or bs NULL \<and> prev n = last_or as NULL \<and>
               listNext s ip =
                 Some (s\<lparr>iters := (iters s)(ip \<mapsto>
                         it\<lparr>it_next := (if direction it = AL_START_HEAD then next n
                                          else prev n)\<rparr>)\<rparr>, c)"
    if h: "iters s ip = Some it \<and> xs = as @ c # bs \<and> it_next it = c"
  proof -
    from inv h have "list_inv s lp (as @ c # bs)" by simp
    then obtain n where n: "nodes s c = Some n" "prev n = last_or as NULL"
      "next n = first_or bs NULL" "c \<noteq> NULL"
      by (rule list_inv_mid)
    from h have "iters s ip = Some it" "it_next it = c" by simp_all
    from listNext_at_node [OF this n(4,1)] n show ?thesis by blast
  qed
  have n2: "\<exists>s1 s2. listNext s ip = Some (s1, c) \<and> listDelNode s1 lp c = Some s2 \<and>
               list_inv s2 lp (as @ bs) \<and>
               iters s2 ip = Some (it\<lparr>it_next := (if direction it = AL_START_HEAD
                                                   then first_or bs NULL
                                                   else last_or as NULL)\<rparr>)"
    if h: "iters s ip = Some it \<and> xs = as @ c # bs \<and> it_next it = c"
  proof -
    from inv h have i: "list_inv s lp (as @ c # bs)" by simp
    from h have "iters s ip = Some it" "it_next it = c" by simp_all
    from listNext_then_delete [OF i this] show ?thesis by blast
  qed
  from inv L have s1: "list_inv ?s1 lp ([] @ xs)" "iters ?s1 zm = Some ?it"
    "it_next ?it = first_or xs NULL" "direction ?it = AL_START_HEAD"
    by (simp_all add: list_inv_def)
  from drain_forward [OF s1] have d: "\<exists>s'. drain (Suc (length xs)) ?s1 zm = Some (s', xs @ [NULL])"
    by blast
  from drain_del_forward [OF s1]
  have dd: "\<exists>s'. drain_del (Suc (length xs)) ?s1 lp zm = Some (s', xs @ [NULL]) \<and> list_inv s' lp []"
    by blast
  show ?thesis
    using g1 g2 n0 n1 n2 d dd by (intro conjI impI) blast+
qed


theorem C6_iteration_witness:
  "list_inv demo_it 1 [10, 11, 12] \<and>
   listNext demo_it 41 = Some (demo_it, NULL) \<and>
   (\<exists>s1 s2. listNext demo_it 40 = Some (s1, 11) \<and> listDelNode s1 1 11 = Some s2 \<and>
      list_inv s2 1 ([10] @ [12]) \<and>
      iters s2 40 = Some \<lparr>it_next = 12, direction = AL_START_HEAD\<rparr>) \<and>
   (\<exists>s1 s'. listGetIterator 42 demo_it 1 AL_START_HEAD = Some (s1, 42) \<and>
      drain (Suc (length [10, 11, 12 :: ptr])) s1 42 = Some (s', [10, 11, 12] @ [NULL])) \<and>
   (\<exists>s1 s'. listGetIterator 42 demo_it 1 AL_START_HEAD = Some (s1, 42) \<and>
      drain_del (Suc (length [10, 11, 12 :: ptr])) s1 1 42 = Some (s', [10, 11, 12] @ [NULL]) \<and>
      list_inv s' 1 [])"
proof -
  let ?L = "\<lparr>head = 10, tail = 12, dup = None, free = Some (\<lambda>v w. w @ [v]), match = None,
    len = 3 :: 64 word\<rparr> :: ptr list list_t"
  let ?i0 = "\<lparr>it_next = NULL, direction = AL_START_HEAD\<rparr>"
  let ?i1 = "\<lparr>it_next = 11, direction = AL_START_HEAD\<rparr>"
  have inv: "list_inv demo_it 1 [10, 11, 12]"
    by (simp add: demo_it_def demo_def list_inv_def)
  have L: "headers demo_it 1 = Some ?L"
    by (simp add: demo_it_def demo_def)
  have zm: "(42 :: ptr) \<noteq> NULL" by simp
  note t = C6_iteration [OF inv L zm]
  have a: "iters demo_it 41 = Some ?i0 \<and> it_next ?i0 = NULL"
    by (simp add: demo_it_def)
  have b: "iters demo_it 40 = Some ?i1 \<and> [10, 11, 12] = [10] @ 11 # [12] \<and> it_next ?i1 = 11"
    by (simp add: demo_it_def)
  from t [of 41 ?i0] a have r1: "listNext demo_it 41 = Some (demo_it, NULL)"
    by blast
  from t [of 40 ?i1 "[10]" 11 "[12]"] b
  have "\<exists>s1 s2. listNext demo_it 40 = Some (s1, 11) \<and> listDelNode s1 1 11 = Some s2 \<and>
      list_inv s2 1 ([10] @ [12]) \<and>
      iters s2 40 = Some (?i1\<lparr>it_next := (if direction ?i1 = AL_START_HEAD
                                             then first_or [12] NULL else last_or [10] NULL)\<rparr>)"
    by blast
  then have r2: "\<exists>s1 s2. listNext demo_it 40 = Some (s1, 11) \<and> listDelNode s1 1 11 = Some s2 \<and>
      list_inv s2 1 ([10] @ [12]) \<and>
      iters s2 40 = Some \<lparr>it_next = 12, direction = AL_START_HEAD\<rparr>"
    by simp
  from t [of 41 ?i0]
  have r3: "\<exists>s1 s'. listGetIterator 42 demo_it 1 AL_START_HEAD = Some (s1, 42) \<and>
      drain (Suc (length [10, 11, 12 :: ptr])) s1 42 = Some (s', [10, 11, 12] @ [NULL])"
    and r4: "\<exists>s1 s'. listGetIterator 42 demo_it 1 AL_START_HEAD = Some (s1, 42) \<and>
      drain_del (Suc (length [10, 11, 12 :: ptr])) s1 1 42 = Some (s', [10, 11, 12] @ [NULL]) \<and>
      list_inv s' 1 []"
    by blast+
  from inv r1 r2 r3 r4 show ?thesis by blast
qed

section \<open>Search\<close>

lemma listSearchKey_loop_ok:
  assumes "list_inv s lp (as @ bs)" "it_next it = first_or bs NULL"
    "direction it = AL_START_HEAD"
  shows "\<exists>s' r. listSearchKey_loop lp key it s = Some (s', r) \<and> (r = NULL \<or> r \<in> set bs) \<and>
           nodes s' = nodes s \<and> headers s' = headers s \<and> iters s' = iters s"
  using assms
proof (induction bs arbitrary: as s it)
  case Nil
  then show ?case
    by (subst listSearchKey_loop.simps) (simp add: next_it_def)
next
  case (Cons b bs)
  from Cons.prems(1) obtain n where n: "nodes s b = Some n" "next n = first_or bs NULL"
    "b \<noteq> NULL"
    by (rule list_inv_mid)
  from Cons.prems(1) obtain L where L: "headers s lp = Some L" by (rule list_invD)
  let ?it = "it\<lparr>it_next := first_or bs NULL\<rparr>"
  have nx: "next_it (nodes s) it = Some (b, ?it)"
    using Cons.prems(2,3) n by (simp add: next_it_def)
  have ih: "\<exists>s' r. listSearchKey_loop lp key ?it (s\<lparr>world := w\<rparr>) = Some (s', r) \<and>
              (r = NULL \<or> r \<in> set bs) \<and> nodes s' = nodes s \<and> headers s' = headers s \<and>
              iters s' = iters s" for w
  proof -
    from Cons.prems(1) have "list_inv (s\<lparr>world := w\<rparr>) lp ((as @ [b]) @ bs)" by simp
    from Cons.IH [OF this, of ?it] Cons.prems(3) show ?thesis by simp
  qed
  show ?case
  proof (cases "match L")
    case None
    show ?thesis
    proof (cases "key = value n")
      case True
      with nx n L None show ?thesis
        by (subst listSearchKey_loop.simps) simp
    next
      case False
      from ih [of "world s"] obtain s' r where
        "listSearchKey_loop lp key ?it s = Some (s', r)" "r = NULL \<or> r \<in> set bs"
        "nodes s' = nodes s" "headers s' = headers s" "iters s' = iters s"
        by auto
      with nx n L None False show ?thesis
        by (subst listSearchKey_loop.simps) auto
    qed
  next
    case (Some m)
    obtain r w where rw: "m (value n) key (world s) = (r, w)" by (cases "m (value n) key (world s)")
    show ?thesis
    proof (cases "r = 0")
      case True
      from ih [of w] obtain s' r' where
        "listSearchKey_loop lp key ?it (s\<lparr>world := w\<rparr>) = Some (s', r')" "r' = NULL \<or> r' \<in> set bs"
        "nodes s' = nodes s" "headers s' = headers s" "iters s' = iters s"
        by auto
      with nx n L Some rw True show ?thesis
        by (subst listSearchKey_loop.simps) auto
    next
      case False
      with nx n L Some rw show ?thesis
        by (subst listSearchKey_loop.simps) simp
    qed
  qed
qed

lemma listSearchKey_ok:
  assumes "list_inv s lp xs"
  shows "\<exists>s' r. listSearchKey s lp key = Some (s', r) \<and> (r = NULL \<or> r \<in> set xs) \<and>
           nodes s' = nodes s \<and> headers s' = headers s \<and> iters s' = iters s"
proof -
  from assms obtain L where L: "headers s lp = Some L" "head L = first_or xs NULL"
    by (rule list_invD)
  from assms have "list_inv s lp ([] @ xs)" by simp
  from listSearchKey_loop_ok [OF this, of "rewind_it L \<lparr>it_next = NULL, direction = 0\<rparr>" key] L
  show ?thesis by (simp add: listSearchKey_def rewind_it_def)
qed

section \<open>Which operations can fail\<close>

lemma listRotate_total:
  assumes inv: "list_inv s lp xs"
  shows "\<exists>s'. listRotate s lp = Some s'"
proof (cases "length xs \<le> 1")
  case True
  from inv obtain L where L: "headers s lp = Some L" "unat (len L) = length xs"
    by (rule list_invD)
  with True have "len L \<le> 1" by (simp add: word_le_nat_alt)
  with L(1) have "listRotate s lp = Some s" by (rule listRotate_noop)
  then show ?thesis by blast
next
  case False
  then obtain ys t where xs: "xs = ys @ [t]" "ys \<noteq> []"
    by (cases xs rule: rev_cases) auto
  with inv have "list_inv s lp (ys @ [t])" by simp
  from listRotate_ok [OF this xs(2)] show ?thesis by blast
qed

lemma listNext_total:
  assumes inv: "list_inv s lp xs" and it: "iters s ip = Some it"
    and c: "it_next it = NULL \<or> it_next it \<in> set xs"
  shows "\<exists>s' r. listNext s ip = Some (s', r)"
proof (cases "it_next it = NULL")
  case True
  with it have "listNext s ip = Some (s, NULL)" by (rule listNext_at_end)
  then show ?thesis by blast
next
  case False
  with c obtain as bs where "xs = as @ it_next it # bs"
    by (auto dest: split_list)
  with inv have "list_inv s lp (as @ it_next it # bs)" by simp
  from listNext_in_list [OF this it refl] show ?thesis by blast
qed

text \<open>
  On a valid list, \<^verbatim>\<open>listDelNode\<close> (of a node of the list), \<^verbatim>\<open>listRotate\<close>,
  \<^verbatim>\<open>listJoin\<close> (with a distinct valid list sharing no node), \<^verbatim>\<open>listSearchKey\<close>,
  \<^verbatim>\<open>listIndex\<close>, \<^verbatim>\<open>listRewind\<close>, \<^verbatim>\<open>listRewindTail\<close>, \<^verbatim>\<open>listReleaseIterator\<close>
  (on an allocated iterator) and \<^verbatim>\<open>listNext\<close> (on an iterator whose cursor is
  \<open>NULL\<close> or a node of the list) all return a result: none of them reads through an
  unallocated pointer or runs forever, and none has a failure outcome.
  \<^verbatim>\<open>listGetIterator\<close> returns the new iterator when its allocation succeeds.
\<close>

lemma no_failure_on_valid_list:
  assumes inv: "list_inv s lp xs"
  shows "(xs = as @ node # bs \<longrightarrow> (\<exists>s'. listDelNode s lp node = Some s')) \<and>
         (\<exists>s'. listRotate s lp = Some s') \<and>
         (list_inv s other ys \<and> lp \<noteq> other \<and> set xs \<inter> set ys = {} \<longrightarrow>
            (\<exists>s'. listJoin s lp other = Some s')) \<and>
         (\<exists>s' r. listSearchKey s lp key = Some (s', r)) \<and>
         (\<exists>r. listIndex s lp i = Some r) \<and>
         (zm \<noteq> NULL \<longrightarrow> (\<exists>s'. listGetIterator zm s lp dir = Some (s', zm))) \<and>
         (iters s ip = Some it \<longrightarrow>
            (\<exists>s'. listRewind s lp ip = Some s') \<and> (\<exists>s'. listRewindTail s lp ip = Some s') \<and>
            (\<exists>s'. listReleaseIterator s ip = Some s')) \<and>
         (iters s ip = Some it \<and> (it_next it = NULL \<or> it_next it \<in> set xs) \<longrightarrow>
            (\<exists>s' r. listNext s ip = Some (s', r)))"
proof -
  from inv obtain L where L: "headers s lp = Some L" by (rule list_invD)
  have del: "\<exists>s'. listDelNode s lp node = Some s'" if "xs = as @ node # bs"
    using listDelNode_ok [of s lp as node bs] inv that by blast
  have rot: "\<exists>s'. listRotate s lp = Some s'"
    using inv by (rule listRotate_total)
  have join: "\<exists>s'. listJoin s lp other = Some s'"
    if "list_inv s other ys \<and> lp \<noteq> other \<and> set xs \<inter> set ys = {}"
    using listJoin_ok [of s lp xs other ys] inv that by blast
  have search: "\<exists>s' r. listSearchKey s lp key = Some (s', r)"
    using listSearchKey_ok [OF inv, of key] by blast
  have idx: "\<exists>r. listIndex s lp i = Some r"
  proof -
    from inv have c: "chain (nodes s) NULL xs NULL" "head L = first_or xs NULL"
      "tail L = last_or xs NULL"
      using L by (auto simp: list_inv_def)
    from L c listIndex_loop_next [OF c(1), of i] listIndex_loop_prev [OF c(1), of "- i - 1"]
    show ?thesis by (simp add: listIndex_def)
  qed
  have get: "\<exists>s'. listGetIterator zm s lp dir = Some (s', zm)" if "zm \<noteq> NULL"
    using listGetIterator_ok [OF L that, of dir] by blast
  have rew: "(\<exists>s'. listRewind s lp ip = Some s') \<and> (\<exists>s'. listRewindTail s lp ip = Some s') \<and>
            (\<exists>s'. listReleaseIterator s ip = Some s')" if "iters s ip = Some it"
    using that L
    by (simp add: listRewind_def listRewindTail_def listReleaseIterator_def upd_iter_def)
  have nxt: "\<exists>s' r. listNext s ip = Some (s', r)"
    if "iters s ip = Some it \<and> (it_next it = NULL \<or> it_next it \<in> set xs)"
    using listNext_total [OF inv, of ip it] that by blast
  from del rot join search idx get rew nxt show ?thesis
    by (intro conjI impI) blast+
qed

lemma no_failure_on_demo:
  "list_inv demo_it 1 [10, 11, 12] \<and>
   (\<exists>s'. listDelNode demo_it 1 11 = Some s') \<and>
   (\<exists>s'. listRotate demo_it 1 = Some s') \<and>
   (\<exists>s'. listJoin demo_it 1 2 = Some s') \<and>
   (\<exists>s' r. listSearchKey demo_it 1 101 = Some (s', r)) \<and>
   (\<exists>r. listIndex demo_it 1 1 = Some r) \<and>
   (\<exists>s'. listGetIterator 42 demo_it 1 AL_START_TAIL = Some (s', 42)) \<and>
   (\<exists>s'. listRewind demo_it 1 40 = Some s') \<and> (\<exists>s'. listRewindTail demo_it 1 40 = Some s') \<and>
   (\<exists>s'. listReleaseIterator demo_it 40 = Some s') \<and>
   (\<exists>s' r. listNext demo_it 40 = Some (s', r))"
proof -
  let ?i1 = "\<lparr>it_next = 11, direction = AL_START_HEAD\<rparr>"
  have inv: "list_inv demo_it 1 [10, 11, 12]"
    by (simp add: demo_it_def demo_def list_inv_def)
  have h: "[10, 11, 12] = [10] @ 11 # [12 :: ptr]"
    "list_inv demo_it 2 [20, 21] \<and> (1 :: ptr) \<noteq> 2 \<and> set [10, 11, 12 :: ptr] \<inter> set [20, 21] = {}"
    "(42 :: ptr) \<noteq> NULL"
    "iters demo_it 40 = Some ?i1"
    "iters demo_it 40 = Some ?i1 \<and> (it_next ?i1 = NULL \<or> it_next ?i1 \<in> set [10, 11, 12])"
    by (simp_all add: demo_it_def demo_def list_inv_def)
  from no_failure_on_valid_list [OF inv, of "[10]" 11 "[12]" 2 "[20, 21]" 101 1 42 AL_START_TAIL 40 ?i1]
    inv h
  show ?thesis by blast
qed

text \<open>
  Claim C3. The claim counts the creation of an iterator among the operations that never
  fail, and the comment above \<^verbatim>\<open>listGetIterator\<close> says the same (\<^verbatim>\<open>This function can't fail\<close>).
  The function does not keep to it: it allocates the iterator, and when \<^verbatim>\<open>zmalloc\<close>
  returns \<open>NULL\<close> it returns \<open>NULL\<close>. On the valid three-node list 1 of \<open>demo\<close>
  with a failing allocation, the call returns \<open>NULL\<close>, no iterator exists afterwards,
  and the store is the one of before; the same call with a successful allocation returns
  the iterator, seated at the head.
\<close>

theorem C3_iterator_allocation_failure:
  "list_inv demo 1 [10, 11, 12] \<and>
   listGetIterator NULL demo 1 AL_START_HEAD = Some (demo, NULL) \<and>
   iters demo = Map.empty \<and>
   listGetIterator 40 demo 1 AL_START_HEAD
     = Some (demo\<lparr>iters := [40 \<mapsto> \<lparr>it_next = 10, direction = AL_START_HEAD\<rparr>]\<rparr>, 40)"
  by (simp add: listGetIterator_def demo_def list_inv_def AL_START_HEAD_def)

section \<open>Invariants of reachable stores\<close>

lemma list_inv_allocated: "list_inv s lp xs \<Longrightarrow> x \<in> set xs \<Longrightarrow> nodes s x \<noteq> None"
  by (auto elim!: list_invD dest: chain_allocated)

lemma list_inv_header: "list_inv s lp xs \<Longrightarrow> headers s lp \<noteq> None"
  by (auto elim: list_invD)

lemma state_inv_update:
  assumes si: "state_inv s f" and new: "list_inv s' lp ys"
    and hdr: "\<forall>lq. lq \<noteq> lp \<longrightarrow> headers s' lq = headers s lq"
    and frame: "\<forall>x. x \<notin> set (f lp) \<longrightarrow> x \<notin> A \<longrightarrow> nodes s' x = nodes s x"
    and fresh: "\<forall>x\<in>A. nodes s x = None"
    and sub: "set ys \<subseteq> set (f lp) \<union> A"
    and lp: "headers s lp \<noteq> None"
  shows "state_inv s' (f(lp := ys))"
proof -
  have other: "list_inv s' lq (f lq) \<and> set ys \<inter> set (f lq) = {}"
    if lq: "lq \<noteq> lp" "headers s' lq \<noteq> None" for lq
  proof -
    from lq hdr have h: "headers s' lq = headers s lq" "headers s lq \<noteq> None" by auto
    with si have i: "list_inv s lq (f lq)" by (simp add: state_inv_def)
    from si h(2) lp lq(1) have dj: "set (f lp) \<inter> set (f lq) = {}"
      unfolding state_inv_def by blast
    have nA: "x \<notin> A" if "x \<in> set (f lq)" for x
      using list_inv_allocated [OF i that] fresh by auto
    have "\<forall>x. x \<in> set (f lq) \<longrightarrow> nodes s' x = nodes s x"
      using frame dj nA by blast
    with i h(1) have "list_inv s' lq (f lq)" by (rule list_inv_frame)
    moreover have "set ys \<inter> set (f lq) = {}" using sub dj nA by blast
    ultimately show ?thesis by simp
  qed
  show ?thesis
    unfolding state_inv_def
  proof (intro conjI allI impI)
    fix lq assume "headers s' lq \<noteq> None"
    then show "list_inv s' lq ((f(lp := ys)) lq)"
      using other [of lq] new by (cases "lq = lp") simp_all
  next
    fix lq lr assume a: "headers s' lq \<noteq> None \<and> headers s' lr \<noteq> None \<and> lq \<noteq> lr"
    show "set ((f(lp := ys)) lq) \<inter> set ((f(lp := ys)) lr) = {}"
    proof (cases "lq = lp")
      case True
      with a other [of lr] show ?thesis by auto
    next
      case False
      note lq = this
      show ?thesis
      proof (cases "lr = lp")
        case True
        with a lq other [of lq] show ?thesis by auto
      next
        case False
        with a lq hdr have "headers s lq \<noteq> None" "headers s lr \<noteq> None" by auto
        with si a have "set (f lq) \<inter> set (f lr) = {}"
          unfolding state_inv_def by blast
        with lq False show ?thesis by simp
      qed
    qed
  qed
qed

lemma in_list_member:
  assumes "list_inv s lp xs" "in_list s lp x"
  shows "x \<in> set xs"
proof -
  from assms(1) obtain L where L: "headers s lp = Some L" "unat (len L) = length xs"
    by (rule list_invD)
  from list_inv_walks(1) [OF assms(1) L(1), of "unat (len L)"] L(2)
  have "walk next (nodes s) (unat (len L)) (head L) = Some xs" by simp
  with assms(2) L(1) show ?thesis by (simp add: in_list_def)
qed

lemma list_inv_headers_upd_other:
  "lq \<noteq> lp \<Longrightarrow> list_inv (s\<lparr>headers := (headers s)(lp \<mapsto> E)\<rparr>) lq xs = list_inv s lq xs"
  by (simp add: list_inv_def split: option.split)

lemma exec_Create:
  assumes si: "state_inv s f" and p: "pre (Create zm) s"
  shows "\<exists>s' f'. exec (Create zm) s = Some s' \<and> state_inv s' f'"
proof (cases "zm = NULL")
  case True
  with si show ?thesis by (auto simp: listCreate_def)
next
  case False
  with p have fr: "headers s zm = None" by simp
  let ?E = "\<lparr>head = NULL, tail = NULL, dup = None, free = None, match = None, len = 0\<rparr>"
  let ?s' = "s\<lparr>headers := (headers s)(zm \<mapsto> ?E)\<rparr>"
  have e: "exec (Create zm) s = Some ?s'" using False by (simp add: listCreate_def)
  have "state_inv ?s' (f(zm := []))"
    unfolding state_inv_def
  proof (intro conjI allI impI)
    fix lp assume "headers ?s' lp \<noteq> None"
    then show "list_inv ?s' lp ((f(zm := [])) lp)"
      using si
      by (cases "lp = zm") (simp_all add: list_inv_headers_upd_other state_inv_def, simp add: list_inv_def)
  next
    fix lp lq assume "headers ?s' lp \<noteq> None \<and> headers ?s' lq \<noteq> None \<and> lp \<noteq> lq"
    then show "set ((f(zm := [])) lp) \<inter> set ((f(zm := [])) lq) = {}"
      using si unfolding state_inv_def by (cases "lp = zm"; cases "lq = zm") auto
  qed
  with e show ?thesis by blast
qed

lemma exec_SetMethods:
  assumes si: "state_inv s f" and p: "pre (SetMethods lp d fr m) s"
  shows "\<exists>s' f'. exec (SetMethods lp d fr m) s = Some s' \<and> state_inv s' f'"
proof -
  from p obtain L where L: "headers s lp = Some L" by auto
  let ?s' = "s\<lparr>headers := (headers s)(lp \<mapsto> L\<lparr>dup := d, free := fr, match := m\<rparr>)\<rparr>"
  have e: "exec (SetMethods lp d fr m) s = Some ?s'" using L by (simp add: upd_list_def)
  have "list_inv ?s' lq xs = list_inv s lq xs" for lq xs
    using L by (cases "lq = lp") (simp_all add: list_inv_headers_upd_other, simp add: list_inv_def)
  moreover have "headers ?s' lq \<noteq> None \<longleftrightarrow> headers s lq \<noteq> None" for lq
    using L by simp
  ultimately have "state_inv ?s' f" using si unfolding state_inv_def by simp
  with e show ?thesis by blast
qed

lemma exec_AddHead:
  assumes si: "state_inv s f" and p: "pre (AddHead zm lp v) s"
  shows "\<exists>s' f'. exec (AddHead zm lp v) s = Some s' \<and> state_inv s' f'"
proof (cases "zm = NULL")
  case True
  with si show ?thesis by (auto simp: listAddNodeHead_def)
next
  case False
  with p have h: "headers s lp \<noteq> None" and fr: "nodes s zm = None" by simp_all
  from si h have inv: "list_inv s lp (f lp)" by (simp add: state_inv_def)
  from listAddNodeHead_ok [OF inv False fr, of v] obtain s' where
    r: "listAddNodeHead zm s lp v = Some (s', lp)" "list_inv s' lp (zm # f lp)"
      "\<forall>x. x \<noteq> zm \<longrightarrow> x \<notin> set (f lp) \<longrightarrow> nodes s' x = nodes s x"
      "\<forall>lq. lq \<noteq> lp \<longrightarrow> headers s' lq = headers s lq"
    by blast
  have "state_inv s' (f(lp := zm # f lp))"
    using si r(2,4) _ _ _ h
  proof (rule state_inv_update [where A = "{zm}"])
    show "\<forall>x. x \<notin> set (f lp) \<longrightarrow> x \<notin> {zm} \<longrightarrow> nodes s' x = nodes s x" using r(3) by simp
    show "\<forall>x\<in>{zm}. nodes s x = None" using fr by simp
    show "set (zm # f lp) \<subseteq> set (f lp) \<union> {zm}" by auto
  qed
  with r(1) show ?thesis by auto
qed

lemma exec_AddTail:
  assumes si: "state_inv s f" and p: "pre (AddTail zm lp v) s"
  shows "\<exists>s' f'. exec (AddTail zm lp v) s = Some s' \<and> state_inv s' f'"
proof (cases "zm = NULL")
  case True
  with si show ?thesis by (auto simp: listAddNodeTail_def)
next
  case False
  with p have h: "headers s lp \<noteq> None" and fr: "nodes s zm = None" by simp_all
  from si h have inv: "list_inv s lp (f lp)" by (simp add: state_inv_def)
  from listAddNodeTail_ok [OF inv False fr, of v] obtain s' where
    r: "listAddNodeTail zm s lp v = Some (s', lp)" "list_inv s' lp (f lp @ [zm])"
      "\<forall>x. x \<noteq> zm \<longrightarrow> x \<notin> set (f lp) \<longrightarrow> nodes s' x = nodes s x"
      "\<forall>lq. lq \<noteq> lp \<longrightarrow> headers s' lq = headers s lq"
    by blast
  have "state_inv s' (f(lp := f lp @ [zm]))"
    using si r(2,4) _ _ _ h
  proof (rule state_inv_update [where A = "{zm}"])
    show "\<forall>x. x \<notin> set (f lp) \<longrightarrow> x \<notin> {zm} \<longrightarrow> nodes s' x = nodes s x" using r(3) by simp
    show "\<forall>x\<in>{zm}. nodes s x = None" using fr by simp
    show "set (f lp @ [zm]) \<subseteq> set (f lp) \<union> {zm}" by auto
  qed
  with r(1) show ?thesis by auto
qed

lemma exec_Insert:
  assumes si: "state_inv s f" and p: "pre (Insert zm lp old_node v after) s"
  shows "\<exists>s' f'. exec (Insert zm lp old_node v after) s = Some s' \<and> state_inv s' f'"
proof (cases "zm = NULL")
  case True
  with si show ?thesis by (auto simp: listInsertNode_def)
next
  case False
  with p have il: "in_list s lp old_node" and fr: "nodes s zm = None" by simp_all
  from il have h: "headers s lp \<noteq> None" by (auto simp: in_list_def split: option.splits)
  from si h have inv: "list_inv s lp (f lp)" by (simp add: state_inv_def)
  from in_list_member [OF inv il] obtain as bs where xs: "f lp = as @ old_node # bs"
    by (auto dest: split_list)
  from inv xs have inv': "list_inv s lp (as @ old_node # bs)" by simp
  have "\<exists>s' ys. listInsertNode zm s lp old_node v after = Some (s', lp) \<and> list_inv s' lp ys \<and>
          set ys \<subseteq> set (f lp) \<union> {zm} \<and>
          (\<forall>x. x \<noteq> zm \<longrightarrow> x \<notin> set (f lp) \<longrightarrow> nodes s' x = nodes s x) \<and>
          (\<forall>lq. lq \<noteq> lp \<longrightarrow> headers s' lq = headers s lq)"
  proof (cases "after = 0")
    case True
    from listInsertNode_before_ok [OF inv' False fr, of v] obtain s' where
      "listInsertNode zm s lp old_node v 0 = Some (s', lp)"
      "list_inv s' lp (as @ zm # old_node # bs)"
      "\<forall>x. x \<noteq> zm \<longrightarrow> x \<notin> set (as @ old_node # bs) \<longrightarrow> nodes s' x = nodes s x"
      "\<forall>lq. lq \<noteq> lp \<longrightarrow> headers s' lq = headers s lq"
      by blast
    with True xs show ?thesis
      by (intro exI [of _ s'] exI [of _ "as @ zm # old_node # bs"]) auto
  next
    case F: False
    from listInsertNode_after_ok [OF inv' False fr F, of v] obtain s' where
      "listInsertNode zm s lp old_node v after = Some (s', lp)"
      "list_inv s' lp (as @ old_node # zm # bs)"
      "\<forall>x. x \<noteq> zm \<longrightarrow> x \<notin> set (as @ old_node # bs) \<longrightarrow> nodes s' x = nodes s x"
      "\<forall>lq. lq \<noteq> lp \<longrightarrow> headers s' lq = headers s lq"
      by blast
    with xs show ?thesis
      by (intro exI [of _ s'] exI [of _ "as @ old_node # zm # bs"]) auto
  qed
  then obtain s' ys where
    r: "listInsertNode zm s lp old_node v after = Some (s', lp)" "list_inv s' lp ys"
      "set ys \<subseteq> set (f lp) \<union> {zm}"
      "\<forall>x. x \<noteq> zm \<longrightarrow> x \<notin> set (f lp) \<longrightarrow> nodes s' x = nodes s x"
      "\<forall>lq. lq \<noteq> lp \<longrightarrow> headers s' lq = headers s lq"
    by blast
  have "state_inv s' (f(lp := ys))"
    using si r(2,5) _ _ r(3) h
  proof (rule state_inv_update [where A = "{zm}"])
    show "\<forall>x. x \<notin> set (f lp) \<longrightarrow> x \<notin> {zm} \<longrightarrow> nodes s' x = nodes s x" using r(4) by simp
    show "\<forall>x\<in>{zm}. nodes s x = None" using fr by simp
  qed
  with r(1) show ?thesis by auto
qed

lemma exec_Delete:
  assumes si: "state_inv s f" and p: "pre (Delete lp node) s"
  shows "\<exists>s' f'. exec (Delete lp node) s = Some s' \<and> state_inv s' f'"
proof -
  from p have il: "in_list s lp node" by simp
  from il have h: "headers s lp \<noteq> None" by (auto simp: in_list_def split: option.splits)
  from si h have inv: "list_inv s lp (f lp)" by (simp add: state_inv_def)
  from in_list_member [OF inv il] obtain as bs where xs: "f lp = as @ node # bs"
    by (auto dest: split_list)
  from inv xs have inv': "list_inv s lp (as @ node # bs)" by simp
  from listDelNode_ok [OF inv'] obtain s' where
    r: "listDelNode s lp node = Some s'" "list_inv s' lp (as @ bs)"
      "\<forall>x. x \<notin> set (as @ node # bs) \<longrightarrow> nodes s' x = nodes s x"
      "\<forall>lq. lq \<noteq> lp \<longrightarrow> headers s' lq = headers s lq"
    by blast
  have "state_inv s' (f(lp := as @ bs))"
    using si r(2,4) _ _ _ h
  proof (rule state_inv_update [where A = "{}"])
    show "\<forall>x. x \<notin> set (f lp) \<longrightarrow> x \<notin> {} \<longrightarrow> nodes s' x = nodes s x" using r(3) xs by simp
    show "set (as @ bs) \<subseteq> set (f lp) \<union> {}" using xs by auto
  qed simp
  with r(1) show ?thesis by auto
qed

lemma exec_Rotate:
  assumes si: "state_inv s f" and p: "pre (Rotate lp) s"
  shows "\<exists>s' f'. exec (Rotate lp) s = Some s' \<and> state_inv s' f'"
proof -
  from p have h: "headers s lp \<noteq> None" by simp
  from si h have inv: "list_inv s lp (f lp)" by (simp add: state_inv_def)
  show ?thesis
  proof (cases "length (f lp) \<le> 1")
    case True
    from inv obtain L where L: "headers s lp = Some L" "unat (len L) = length (f lp)"
      by (rule list_invD)
    with True have "len L \<le> 1" by (simp add: word_le_nat_alt)
    with L(1) have "listRotate s lp = Some s" by (rule listRotate_noop)
    with si show ?thesis by auto
  next
    case False
    then obtain ys t where xs: "f lp = ys @ [t]" "ys \<noteq> []"
      by (cases "f lp" rule: rev_cases) auto
    with inv have "list_inv s lp (ys @ [t])" by simp
    from listRotate_ok [OF this xs(2)] obtain s' where
      r: "listRotate s lp = Some s'" "list_inv s' lp (t # ys)"
        "\<forall>x. x \<notin> set (ys @ [t]) \<longrightarrow> nodes s' x = nodes s x"
        "\<forall>lq. lq \<noteq> lp \<longrightarrow> headers s' lq = headers s lq"
      by blast
    have "state_inv s' (f(lp := t # ys))"
      using si r(2,4) _ _ _ h
    proof (rule state_inv_update [where A = "{}"])
      show "\<forall>x. x \<notin> set (f lp) \<longrightarrow> x \<notin> {} \<longrightarrow> nodes s' x = nodes s x" using r(3) xs by simp
      show "set (t # ys) \<subseteq> set (f lp) \<union> {}" using xs by auto
    qed simp
    with r(1) show ?thesis by auto
  qed
qed

lemma exec_Empty:
  assumes si: "state_inv s f" and p: "pre (Empty lp) s"
  shows "\<exists>s' f'. exec (Empty lp) s = Some s' \<and> state_inv s' f'"
proof -
  from p have h: "headers s lp \<noteq> None" by simp
  from si h have inv: "list_inv s lp (f lp)" by (simp add: state_inv_def)
  from listEmpty_ok [OF inv] obtain s' L where
    r: "listEmpty s lp = Some s'" "list_inv s' lp []"
      "\<forall>x. nodes s' x = (if x \<in> set (f lp) then None else nodes s x)"
      "headers s' = (headers s)(lp \<mapsto> L\<lparr>head := NULL, tail := NULL, len := 0\<rparr>)"
    by (elim exE conjE) (rule that; assumption)
  have "state_inv s' (f(lp := []))"
    using si r(2) _ _ _ _ h
  proof (rule state_inv_update [where A = "{}"])
    show "\<forall>lq. lq \<noteq> lp \<longrightarrow> headers s' lq = headers s lq" using r(4) by simp
    show "\<forall>x. x \<notin> set (f lp) \<longrightarrow> x \<notin> {} \<longrightarrow> nodes s' x = nodes s x" using r(3) by simp
  qed simp_all
  with r(1) show ?thesis by auto
qed

lemma exec_Join:
  assumes si: "state_inv s f" and p: "pre (Join l other) s"
  shows "\<exists>s' f'. exec (Join l other) s = Some s' \<and> state_inv s' f'"
proof -
  from p have h: "headers s l \<noteq> None" "headers s other \<noteq> None" "l \<noteq> other" by simp_all
  from si h have inv: "list_inv s l (f l)" "list_inv s other (f other)"
    and dj: "set (f l) \<inter> set (f other) = {}"
    unfolding state_inv_def by blast+
  from listJoin_ok [OF inv h(3) dj] obtain s' where
    r: "listJoin s l other = Some s'" "list_inv s' l (f l @ f other)" "list_inv s' other []"
      "\<forall>x. x \<notin> set (f l) \<union> set (f other) \<longrightarrow> nodes s' x = nodes s x"
      "\<forall>lq. lq \<noteq> l \<longrightarrow> lq \<noteq> other \<longrightarrow> headers s' lq = headers s lq"
    by blast
  let ?f = "f(l := f l @ f other, other := [])"
  have rest: "list_inv s' lq (f lq) \<and> set (f lq) \<inter> (set (f l) \<union> set (f other)) = {} \<and>
      headers s lq \<noteq> None"
    if lq: "lq \<noteq> l" "lq \<noteq> other" "headers s' lq \<noteq> None" for lq
  proof -
    from lq r(5) have hq: "headers s' lq = headers s lq" "headers s lq \<noteq> None" by auto
    with si have i: "list_inv s lq (f lq)" by (simp add: state_inv_def)
    from si hq(2) h lq have d: "set (f lq) \<inter> set (f l) = {}" "set (f lq) \<inter> set (f other) = {}"
      unfolding state_inv_def by blast+
    with r(4) have "\<forall>x. x \<in> set (f lq) \<longrightarrow> nodes s' x = nodes s x" by blast
    with i hq(1) have "list_inv s' lq (f lq)" by (rule list_inv_frame)
    with d hq(2) show ?thesis by blast
  qed
  have "state_inv s' ?f"
    unfolding state_inv_def
  proof (intro conjI allI impI)
    fix lq assume "headers s' lq \<noteq> None"
    then show "list_inv s' lq (?f lq)"
      using rest [of lq] r(2,3) h(3) by (cases "lq = l"; cases "lq = other") simp_all
  next
    fix lq lr assume a: "headers s' lq \<noteq> None \<and> headers s' lr \<noteq> None \<and> lq \<noteq> lr"
    have "set (f lq) \<inter> set (f lr) = {}"
      if "lq \<noteq> l" "lq \<noteq> other" "lr \<noteq> l" "lr \<noteq> other"
    proof -
      from that a rest [of lq] rest [of lr] have "headers s lq \<noteq> None" "headers s lr \<noteq> None"
        by auto
      with si a show ?thesis unfolding state_inv_def by blast
    qed
    with a rest [of lq] rest [of lr] h(3) show "set (?f lq) \<inter> set (?f lr) = {}"
      by (cases "lq = l"; cases "lq = other"; cases "lr = l"; cases "lr = other") auto
  qed
  with r(1) show ?thesis by auto
qed

lemma exec_preserves:
  assumes "state_inv s f" "pre c s"
  shows "\<exists>s' f'. exec c s = Some s' \<and> state_inv s' f'"
proof (cases c)
  case (Create zm)
  with assms show ?thesis using exec_Create by blast
next
  case (SetMethods lp d fr m)
  with assms show ?thesis using exec_SetMethods by blast
next
  case (AddHead zm lp v)
  with assms show ?thesis using exec_AddHead by blast
next
  case (AddTail zm lp v)
  with assms show ?thesis using exec_AddTail by blast
next
  case (Insert zm lp old v after)
  with assms show ?thesis using exec_Insert by blast
next
  case (Delete lp node)
  with assms show ?thesis using exec_Delete by blast
next
  case (Rotate lp)
  with assms show ?thesis using exec_Rotate by blast
next
  case (Join l other)
  with assms show ?thesis using exec_Join by blast
next
  case (Empty lp)
  with assms show ?thesis using exec_Empty by blast
qed

lemma run_preserves:
  "run s cs = Some s' \<Longrightarrow> state_inv s f \<Longrightarrow> \<exists>f'. state_inv s' f'"
proof (induction cs arbitrary: s f)
  case Nil
  then show ?case by auto
next
  case (Cons c cs)
  from Cons.prems(1) have p: "pre c s" by (simp split: if_splits)
  from exec_preserves [OF Cons.prems(2) p] obtain s1 f1 where
    e: "exec c s = Some s1" "state_inv s1 f1"
    by blast
  with Cons.prems(1) p have "run s1 cs = Some s'" by simp
  from Cons.IH [OF this e(2)] show ?case .
qed

lemma state_inv_init: "state_inv (init w) f"
  by (simp add: state_inv_def init_def)

lemma list_inv_links:
  assumes inv: "list_inv s lp xs" and x: "x \<in> set xs"
  shows "\<exists>n. nodes s x = Some n \<and>
           (next n \<noteq> NULL \<longrightarrow> (\<exists>m. nodes s (next n) = Some m \<and> prev m = x)) \<and>
           (prev n \<noteq> NULL \<longrightarrow> (\<exists>m. nodes s (prev n) = Some m \<and> next m = x))"
proof -
  from x obtain as bs where xs: "xs = as @ x # bs" by (auto dest: split_list)
  from inv xs have i: "list_inv s lp (as @ x # bs)" by simp
  then obtain n where n: "nodes s x = Some n" "prev n = last_or as NULL"
    "next n = first_or bs NULL"
    by (rule list_inv_mid)
  have nx: "\<exists>m. nodes s (next n) = Some m \<and> prev m = x" if "next n \<noteq> NULL"
  proof -
    from that n(3) obtain b bs' where bs: "bs = b # bs'" by (cases bs) auto
    with i have "list_inv s lp ((as @ [x]) @ b # bs')" by simp
    then obtain m where "nodes s b = Some m" "prev m = last_or (as @ [x]) NULL"
      by (rule list_inv_mid)
    with n(3) bs show ?thesis by simp
  qed
  have pv: "\<exists>m. nodes s (prev n) = Some m \<and> next m = x" if "prev n \<noteq> NULL"
  proof -
    from that n(2) obtain as' a where as: "as = as' @ [a]" by (cases as rule: rev_cases) auto
    with i have "list_inv s lp (as' @ a # (x # bs))" by simp
    then obtain m where "nodes s a = Some m" "next m = first_or (x # bs) NULL"
      by (rule list_inv_mid)
    with n(2) as show ?thesis by simp
  qed
  from n(1) nx pv show ?thesis by blast
qed

lemma list_inv_ends:
  assumes inv: "list_inv s lp xs" and L: "headers s lp = Some L"
  shows "head L = NULL \<longleftrightarrow> tail L = NULL" "tail L = NULL \<longleftrightarrow> len L = 0"
    "head L \<noteq> NULL \<longrightarrow> (\<exists>n. nodes s (head L) = Some n \<and> prev n = NULL)"
    "tail L \<noteq> NULL \<longrightarrow> (\<exists>n. nodes s (tail L) = Some n \<and> next n = NULL)"
proof -
  from inv L have c: "chain (nodes s) NULL xs NULL" "head L = first_or xs NULL"
    "tail L = last_or xs NULL" "unat (len L) = length xs"
    by (auto simp: list_inv_def)
  have nn: "NULL \<notin> set xs" using c(1) by (rule chain_not_NULL)
  have e: "head L = NULL \<longleftrightarrow> xs = []" "tail L = NULL \<longleftrightarrow> xs = []"
    using c nn by (simp_all add: first_or_NULL_iff last_or_NULL_iff)
  have "unat (len L) = 0 \<longleftrightarrow> xs = []" using c(4) by simp
  then have e3: "len L = 0 \<longleftrightarrow> xs = []" by (simp only: unat_eq_zero)
  note e = e e3
  from e show "head L = NULL \<longleftrightarrow> tail L = NULL" "tail L = NULL \<longleftrightarrow> len L = 0" by simp_all
  show "head L \<noteq> NULL \<longrightarrow> (\<exists>n. nodes s (head L) = Some n \<and> prev n = NULL)"
  proof
    assume "head L \<noteq> NULL"
    with e obtain h bs where "xs = h # bs" by (cases xs) auto
    with c show "\<exists>n. nodes s (head L) = Some n \<and> prev n = NULL"
      by (auto split: option.splits)
  qed
  show "tail L \<noteq> NULL \<longrightarrow> (\<exists>n. nodes s (tail L) = Some n \<and> next n = NULL)"
  proof
    assume "tail L \<noteq> NULL"
    with e have "xs \<noteq> []" by simp
    from chain_last_node [OF c(1) this] c(3)
    show "\<exists>n. nodes s (tail L) = Some n \<and> next n = NULL" by simp
  qed
qed

text \<open>
  Every store reached from the empty one satisfies \<open>state_inv\<close>: all its lists are
  valid and no node belongs to two of them.
\<close>

lemma reachable_state_inv: "run (init w) cs = Some s \<Longrightarrow> \<exists>f. state_inv s f"
  by (rule run_preserves [of "init w" cs s "\<lambda>_. []"]) (simp_all add: state_inv_init)

text \<open>
  Claim C1. In every store reached from the empty store by a sequence of
  \<^verbatim>\<open>listCreate\<close>, \<^verbatim>\<open>listAddNodeHead\<close>, \<^verbatim>\<open>listAddNodeTail\<close>, \<^verbatim>\<open>listInsertNode\<close>,
  \<^verbatim>\<open>listDelNode\<close>, \<^verbatim>\<open>listRotate\<close>, \<^verbatim>\<open>listJoin\<close> and \<^verbatim>\<open>listEmpty\<close> calls (and
  installations of callbacks), every list is valid in the sense of \<open>list_inv\<close>, for a
  node sequence \<open>xs\<close> such that: following \<^verbatim>\<open>next\<close> from the head visits \<open>xs\<close> and then reaches \<open>NULL\<close>, following
  \<^verbatim>\<open>prev\<close> from the tail visits \<open>rev xs\<close>, the stored length is \<open>length xs\<close>; head is
  null iff tail is null iff the length is 0; for every node of the list with a non-null
  \<^verbatim>\<open>next\<close>, the \<^verbatim>\<open>prev\<close> of that next node is the node itself, and symmetrically; the
  head's \<^verbatim>\<open>prev\<close> and the tail's \<^verbatim>\<open>next\<close> are null.
\<close>

theorem C1_invariants:
  assumes run: "run (init w) cs = Some s" and L: "headers s lp = Some L"
  shows "\<exists>xs. list_inv s lp xs \<and>
              (\<forall>k\<ge>length xs. walk next (nodes s) k (head L) = Some xs \<and>
                              walk prev (nodes s) k (tail L) = Some (rev xs)) \<and>
              unat (len L) = length xs \<and>
              (head L = NULL \<longleftrightarrow> tail L = NULL) \<and> (tail L = NULL \<longleftrightarrow> len L = 0) \<and>
              (\<forall>x\<in>set xs. \<exists>n. nodes s x = Some n \<and>
                 (next n \<noteq> NULL \<longrightarrow> (\<exists>m. nodes s (next n) = Some m \<and> prev m = x)) \<and>
                 (prev n \<noteq> NULL \<longrightarrow> (\<exists>m. nodes s (prev n) = Some m \<and> next m = x))) \<and>
              (head L \<noteq> NULL \<longrightarrow> (\<exists>n. nodes s (head L) = Some n \<and> prev n = NULL)) \<and>
              (tail L \<noteq> NULL \<longrightarrow> (\<exists>n. nodes s (tail L) = Some n \<and> next n = NULL))"
proof -
  from run_preserves [OF run state_inv_init [of w "\<lambda>_. []"]] obtain f where "state_inv s f"
    by blast
  with L have inv: "list_inv s lp (f lp)" by (simp add: state_inv_def)
  have w: "\<forall>k\<ge>length (f lp). walk next (nodes s) k (head L) = Some (f lp) \<and>
                              walk prev (nodes s) k (tail L) = Some (rev (f lp))"
    using list_inv_walks [OF inv L] by blast
  have u: "unat (len L) = length (f lp)" using inv L by (simp add: list_inv_def)
  have l: "\<forall>x\<in>set (f lp). \<exists>n. nodes s x = Some n \<and>
                 (next n \<noteq> NULL \<longrightarrow> (\<exists>m. nodes s (next n) = Some m \<and> prev m = x)) \<and>
                 (prev n \<noteq> NULL \<longrightarrow> (\<exists>m. nodes s (prev n) = Some m \<and> next m = x))"
    using list_inv_links [OF inv] by blast
  note e = list_inv_ends [OF inv L]
  show ?thesis
    by (rule exI [of _ "f lp"]) (intro conjI inv w u l e)
qed

lemma walk_numeral:
  "walk link h (numeral k) p =
     (if p = NULL then Some []
      else case h p of None \<Rightarrow> None
           | Some n \<Rightarrow> map_option ((#) p) (walk link h (pred_numeral k) (link n)))"
  by (simp add: numeral_eq_Suc)

lemmas eval_ops = init_def listCreate_def upd_list_def upd_node_def listAddNodeTail_def
      listAddNodeHead_def listInsertNode_def listRotate_def listDelNode_def listJoin_def
      listEmpty_def listEmpty_loop.simps in_list_def zfree_node_def call_free_def
      walk_numeral

theorem C1_invariants_witness:
  "\<exists>s L. run (init ([] :: ptr list)) demo_ops = Some s \<and> headers s 1 = Some L \<and>
     (\<exists>xs. list_inv s 1 xs \<and>
              (\<forall>k\<ge>length xs. walk next (nodes s) k (head L) = Some xs \<and>
                              walk prev (nodes s) k (tail L) = Some (rev xs)) \<and>
              unat (len L) = length xs \<and>
              (head L = NULL \<longleftrightarrow> tail L = NULL) \<and> (tail L = NULL \<longleftrightarrow> len L = 0) \<and>
              (\<forall>x\<in>set xs. \<exists>n. nodes s x = Some n \<and>
                 (next n \<noteq> NULL \<longrightarrow> (\<exists>m. nodes s (next n) = Some m \<and> prev m = x)) \<and>
                 (prev n \<noteq> NULL \<longrightarrow> (\<exists>m. nodes s (prev n) = Some m \<and> next m = x))) \<and>
              (head L \<noteq> NULL \<longrightarrow> (\<exists>n. nodes s (head L) = Some n \<and> prev n = NULL)) \<and>
              (tail L \<noteq> NULL \<longrightarrow> (\<exists>n. nodes s (tail L) = Some n \<and> next n = NULL)))"
proof -
  have "\<exists>s. run (init ([] :: ptr list)) demo_ops = Some s \<and> (\<exists>L. headers s 1 = Some L)"
    by (simp add: demo_ops_def eval_ops)
  then obtain s L where r: "run (init ([] :: ptr list)) demo_ops = Some s" "headers s 1 = Some L"
    by blast
  from C1_invariants [OF r] r show ?thesis by blast
qed

section \<open>Duplication\<close>

lemma list_inv_vals_frame:
  "\<forall>x. x \<in> set xs \<longrightarrow> nodes s' x = nodes s x \<Longrightarrow> vals (nodes s') xs = vals (nodes s) xs"
  by (rule vals_cong) simp

lemma vals_length: "chain h p xs q \<Longrightarrow> length (vals h xs) = length xs"
  by (induction xs arbitrary: p) (auto split: option.splits)

lemma list_inv_fresh: "list_inv s lp xs \<Longrightarrow> nodes s z = None \<Longrightarrow> z \<notin> set xs"
  using list_inv_allocated [of s lp xs z] by auto

lemma allocated_from_Suc:
  "map (\<lambda>j. zmalloc (k + j)) [0..<Suc n] = zmalloc k # map (\<lambda>j. zmalloc (Suc k + j)) [0..<n]"
  by (simp only: map_upt_Suc) simp

lemma listDup_loop_ok:
  assumes orig: "list_inv s orig (as @ bs)" and copy: "list_inv s copy cs" and ne: "orig \<noteq> copy"
    and cnz: "copy \<noteq> NULL"
    and dj: "set cs \<inter> set (as @ bs) = {}"
    and L: "headers s orig = Some L"
    and C: "headers s copy = Some C" "dup C = dup L" "free C = free L"
    and it: "it_next it = first_or bs NULL" "direction it = AL_START_HEAD"
    and fresh: "\<forall>j<length bs. zmalloc (k + j) \<noteq> NULL \<longrightarrow>
                  nodes s (zmalloc (k + j)) = None \<and> (\<forall>i<j. zmalloc (k + i) \<noteq> zmalloc (k + j))"
  shows "\<exists>s' r. listDup_loop zmalloc k copy it s = Some (s', r) \<and>
           headers s' orig = Some L \<and> (\<forall>x. x \<in> set (as @ bs) \<longrightarrow> nodes s' x = nodes s x) \<and>
           iters s' = iters s \<and>
           (case dup_run (dup L) zmalloc k (vals (nodes s) bs) (vals (nodes s) cs) (world s) of
              (ok, placed, w) \<Rightarrow>
                if ok then
                  r = copy \<and> world s' = w \<and>
                  (\<exists>cs' C'. cs' = map (\<lambda>j. zmalloc (k + j)) [0..<length bs] \<and>
                     list_inv s' copy (cs @ cs') \<and> length cs' = length bs \<and>
                     vals (nodes s') (cs @ cs') = placed \<and>
                     headers s' copy = Some C' \<and> dup C' = dup L \<and> free C' = free L \<and>
                     match C' = match C \<and>
                     (\<forall>x. x \<notin> set (cs @ cs') \<longrightarrow> nodes s' x = nodes s x)) \<and>
                  (\<forall>lq. lq \<noteq> copy \<longrightarrow> headers s' lq = headers s lq)
                else
                  r = NULL \<and> world s' = release_all (free L) placed w \<and>
                  (\<forall>x. nodes s' x = (if x \<in> set cs then None else nodes s x)) \<and>
                  headers s' = (headers s)(copy := None))"
  using assms
proof (induction bs arbitrary: as cs s it k C)
  case Nil
  have "listDup_loop zmalloc k copy it s = Some (s, copy)"
    using Nil.prems(10) by (subst listDup_loop.simps) (simp add: next_it_def)
  with Nil.prems show ?case by simp
next
  case (Cons b bs)
  note orig = Cons.prems(1) and copy = Cons.prems(2) and ne = Cons.prems(3)
    and cnz = Cons.prems(4)
    and dj = Cons.prems(5) and L = Cons.prems(6) and C = Cons.prems(7-9)
    and it = Cons.prems(10,11) and fresh = Cons.prems(12)
  from orig obtain nb where nb: "nodes s b = Some nb" "next nb = first_or bs NULL" "b \<noteq> NULL"
    by (rule list_inv_mid)
  let ?it = "it\<lparr>it_next := first_or bs NULL\<rparr>"
  have nx: "next_it (nodes s) it = Some (b, ?it)"
    using it nb by (simp add: next_it_def)
  obtain v' w' where vw: "(case dup L of Some f \<Rightarrow> f (value nb) (world s)
                            | None \<Rightarrow> (value nb, world s)) = (v', w')"
    by (cases "case dup L of Some f \<Rightarrow> f (value nb) (world s) | None \<Rightarrow> (value nb, world s)")
  let ?s1 = "s\<lparr>world := w'\<rparr>"
  have unfold: "listDup_loop zmalloc k copy it s =
      (if dup L \<noteq> None \<and> v' = NULL then listRelease ?s1 copy \<bind> (\<lambda>s2. Some (s2, NULL))
       else listAddNodeTail (zmalloc k) ?s1 copy v' \<bind>
         (\<lambda>(s2, r). if r = NULL then listRelease s2 copy \<bind> (\<lambda>s3. Some (s3, NULL))
                     else listDup_loop zmalloc (Suc k) copy ?it s2))"
  proof (cases "dup L")
    case None
    with vw have "v' = value nb" "w' = world s" by simp_all
    then show ?thesis
      using None C(2) by (subst listDup_loop.simps) (simp add: nx nb C(1))
  next
    case (Some f)
    with vw have "f (value nb) (world s) = (v', w')" by simp
    then show ?thesis
      using Some C(2) by (subst listDup_loop.simps) (simp add: nx nb C(1))
  qed
  have run: "dup_run (dup L) zmalloc k (vals (nodes s) (b # bs)) (vals (nodes s) cs) (world s) =
      (if (dup L \<noteq> None \<and> v' = NULL) \<or> zmalloc k = NULL
       then (False, vals (nodes s) cs, w')
       else dup_run (dup L) zmalloc (Suc k) (vals (nodes s) bs) (vals (nodes s) cs @ [v']) w')"
    using vw nb(1) by simp
  have copy1: "list_inv ?s1 copy cs" using copy by simp
  have rel: "\<exists>s'. listRelease ?s1 copy = Some s' \<and>
      headers s' orig = Some L \<and> (\<forall>x. x \<in> set (as @ b # bs) \<longrightarrow> nodes s' x = nodes s x) \<and>
      iters s' = iters s \<and> world s' = release_all (free L) (vals (nodes s) cs) w' \<and>
      (\<forall>x. nodes s' x = (if x \<in> set cs then None else nodes s x)) \<and>
      headers s' = (headers s)(copy := None)"
  proof -
    from listRelease_ok [OF copy1] obtain s' C0 where
      r: "listRelease ?s1 copy = Some s'" "headers ?s1 copy = Some C0"
        "\<forall>x. nodes s' x = (if x \<in> set cs then None else nodes ?s1 x)"
        "headers s' = (headers ?s1)(copy := None)" "iters s' = iters ?s1"
        "world s' = release_all (free C0) (vals (nodes ?s1) cs) (world ?s1)"
      by (elim exE conjE) (rule that; assumption)
    from r(2) C have c0: "free C0 = free L" by simp
    have "headers s' orig = Some L" using r(4) L ne by simp
    moreover have "\<forall>x. x \<in> set (as @ b # bs) \<longrightarrow> nodes s' x = nodes s x"
      using r(3) dj by auto
    moreover have "\<forall>x. nodes s' x = (if x \<in> set cs then None else nodes s x)"
      using r(3) by simp
    ultimately show ?thesis using r c0 by simp
  qed
  show ?case
  proof (cases "(dup L \<noteq> None \<and> v' = NULL) \<or> zmalloc k = NULL")
    case True
    from rel obtain s' where
      s': "listRelease ?s1 copy = Some s'" "headers s' orig = Some L"
        "\<forall>x. x \<in> set (as @ b # bs) \<longrightarrow> nodes s' x = nodes s x"
        "iters s' = iters s" "world s' = release_all (free L) (vals (nodes s) cs) w'"
        "\<forall>x. nodes s' x = (if x \<in> set cs then None else nodes s x)"
        "headers s' = (headers s)(copy := None)"
      by (elim exE conjE) (rule that; assumption)
    have "listDup_loop zmalloc k copy it s = Some (s', NULL)"
      using True s'(1) by (auto simp: unfold listAddNodeTail_def)
    moreover have "dup_run (dup L) zmalloc k (vals (nodes s) (b # bs)) (vals (nodes s) cs) (world s)
        = (False, vals (nodes s) cs, w')"
      using True by (simp only: run if_True)
    ultimately show ?thesis using s' by simp
  next
    case False
    then have zk: "zmalloc k \<noteq> NULL" and nf: "\<not> (dup L \<noteq> None \<and> v' = NULL)" by simp_all
    let ?zm = "zmalloc k"
    from fresh [rule_format, of 0] zk have fz: "nodes s ?zm = None" by simp
    then have fz1: "nodes ?s1 ?zm = None" by simp
    from listAddNodeTail_ok [OF copy1 zk fz1, of v'] obtain s2 C1 C2 where
      a: "listAddNodeTail ?zm ?s1 copy v' = Some (s2, copy)" "list_inv s2 copy (cs @ [?zm])"
        "nodes s2 ?zm = Some \<lparr>prev = last_or cs NULL, next = NULL, value = v'\<rparr>"
        "\<forall>x. x \<noteq> ?zm \<longrightarrow> x \<notin> set cs \<longrightarrow> nodes s2 x = nodes ?s1 x"
        "\<forall>x. x \<noteq> ?zm \<longrightarrow> map_option value (nodes s2 x) = map_option value (nodes ?s1 x)"
        "\<forall>lq. lq \<noteq> copy \<longrightarrow> headers s2 lq = headers ?s1 lq"
        "headers ?s1 copy = Some C1" "headers s2 copy = Some C2"
        "dup C2 = dup C1" "free C2 = free C1" "match C2 = match C1"
        "iters s2 = iters ?s1" "world s2 = world ?s1"
      by (elim exE conjE) (rule that; assumption)
    from a(7) C have c1: "C1 = C" by simp
    have zin: "?zm \<notin> set (as @ b # bs)"
      using orig fz by (rule list_inv_fresh)
    have zcs: "?zm \<notin> set cs"
      using copy fz by (rule list_inv_fresh)
    have a4: "\<forall>x. x \<noteq> ?zm \<longrightarrow> x \<notin> set cs \<longrightarrow> nodes s2 x = nodes s x"
      using a(4) by simp
    have same: "\<forall>x. x \<in> set (as @ b # bs) \<longrightarrow> nodes s2 x = nodes s x"
    proof (intro allI impI)
      fix x assume "x \<in> set (as @ b # bs)"
      with zin dj have "x \<noteq> ?zm" "x \<notin> set cs" by auto
      with a4 show "nodes s2 x = nodes s x" by simp
    qed
    have orig2: "list_inv s2 orig ((as @ [b]) @ bs)"
    proof -
      from orig have "list_inv ?s1 orig (as @ b # bs)" by simp
      moreover have "headers s2 orig = headers ?s1 orig" using a(6) ne by simp
      moreover have "\<forall>x. x \<in> set (as @ b # bs) \<longrightarrow> nodes s2 x = nodes ?s1 x" using same by simp
      ultimately have "list_inv s2 orig (as @ b # bs)" by (rule list_inv_frame)
      then show ?thesis by simp
    qed
    have dj2: "set (cs @ [?zm]) \<inter> set ((as @ [b]) @ bs) = {}" using dj zin by auto
    have L2: "headers s2 orig = Some L" using a(6) ne L by simp
    have C2: "dup C2 = dup L" "free C2 = free L" "match C2 = match C"
      using a(9-11) c1 C by simp_all
    have it2: "it_next ?it = first_or bs NULL" "direction ?it = AL_START_HEAD" using it by simp_all
    have fresh2: "\<forall>j<length bs. zmalloc (Suc k + j) \<noteq> NULL \<longrightarrow>
                  nodes s2 (zmalloc (Suc k + j)) = None \<and>
                  (\<forall>i<j. zmalloc (Suc k + i) \<noteq> zmalloc (Suc k + j))"
    proof (intro allI impI)
      fix j assume j: "j < length bs" and nz: "zmalloc (Suc k + j) \<noteq> NULL"
      from fresh [rule_format, of "Suc j"] j nz
      have f: "nodes s (zmalloc (k + Suc j)) = None"
        "\<forall>i<Suc j. zmalloc (k + i) \<noteq> zmalloc (k + Suc j)"
        by simp_all
      from f(2) [rule_format, of 0] have d0: "zmalloc (k + Suc j) \<noteq> ?zm" by simp
      have "zmalloc (k + Suc j) \<notin> set cs" using copy f(1) by (rule list_inv_fresh)
      with a4 d0 f(1) have "nodes s2 (zmalloc (k + Suc j)) = None" by simp
      moreover have "\<forall>i<j. zmalloc (Suc k + i) \<noteq> zmalloc (Suc k + j)"
      proof (intro allI impI)
        fix i assume "i < j"
        with f(2) [rule_format, of "Suc i"] show "zmalloc (Suc k + i) \<noteq> zmalloc (Suc k + j)"
          by simp
      qed
      ultimately show "nodes s2 (zmalloc (Suc k + j)) = None \<and>
          (\<forall>i<j. zmalloc (Suc k + i) \<noteq> zmalloc (Suc k + j))"
        by simp
    qed
    from Cons.IH [OF orig2 a(2) ne cnz dj2 L2 a(8) C2(1,2) it2 fresh2] obtain s' r where
      ih: "listDup_loop zmalloc (Suc k) copy ?it s2 = Some (s', r)"
        "headers s' orig = Some L" "\<forall>x. x \<in> set ((as @ [b]) @ bs) \<longrightarrow> nodes s' x = nodes s2 x"
        "iters s' = iters s2"
        "case dup_run (dup L) zmalloc (Suc k) (vals (nodes s2) bs) (vals (nodes s2) (cs @ [?zm]))
                (world s2) of
           (ok, placed, w) \<Rightarrow>
             if ok then
               r = copy \<and> world s' = w \<and>
               (\<exists>cs' C'. cs' = map (\<lambda>j. zmalloc (Suc k + j)) [0..<length bs] \<and>
                  list_inv s' copy ((cs @ [?zm]) @ cs') \<and> length cs' = length bs \<and>
                  vals (nodes s') ((cs @ [?zm]) @ cs') = placed \<and>
                  headers s' copy = Some C' \<and> dup C' = dup L \<and> free C' = free L \<and>
                  match C' = match C2 \<and>
                  (\<forall>x. x \<notin> set ((cs @ [?zm]) @ cs') \<longrightarrow> nodes s' x = nodes s2 x)) \<and>
               (\<forall>lq. lq \<noteq> copy \<longrightarrow> headers s' lq = headers s2 lq)
             else
               r = NULL \<and> world s' = release_all (free L) placed w \<and>
               (\<forall>x. nodes s' x = (if x \<in> set (cs @ [?zm]) then None else nodes s2 x)) \<and>
               headers s' = (headers s2)(copy := None)"
      by (elim exE conjE) (rule that; assumption)
    have v2: "vals (nodes s2) bs = vals (nodes s) bs"
      using same by (intro list_inv_vals_frame) simp
    have v3: "vals (nodes s2) (cs @ [?zm]) = vals (nodes s) cs @ [v']"
    proof -
      have a5: "\<forall>x. x \<noteq> ?zm \<longrightarrow>
          map_option value (nodes s2 x) = map_option value (nodes s x)"
        using a(5) by simp
      have "vals (nodes s2) cs = vals (nodes s) cs"
      proof (rule vals_cong)
        fix x assume "x \<in> set cs"
        with zcs have "x \<noteq> ?zm" by auto
        with a5 show "map_option value (nodes s2 x) = map_option value (nodes s x)" by simp
      qed
      with a(3) show ?thesis by simp
    qed
    have w2: "world s2 = w'" using a(13) by simp
    have loop: "listDup_loop zmalloc k copy it s = Some (s', r)"
      using nf zk a(1) ih(1) cnz by (auto simp: unfold)
    obtain ok placed w where dr:
      "dup_run (dup L) zmalloc (Suc k) (vals (nodes s) bs) (vals (nodes s) cs @ [v']) w'
         = (ok, placed, w)"
      by (cases "dup_run (dup L) zmalloc (Suc k) (vals (nodes s) bs) (vals (nodes s) cs @ [v']) w'")
    have run': "dup_run (dup L) zmalloc k (vals (nodes s) (b # bs)) (vals (nodes s) cs) (world s)
        = (ok, placed, w)"
      using False dr by (simp only: run if_False)
    have base: "headers s' orig = Some L" "\<forall>x. x \<in> set (as @ b # bs) \<longrightarrow> nodes s' x = nodes s x"
      "iters s' = iters s"
      using ih(2,3,4) same a(12) by simp_all
    have hdrs: "headers s2 lq = headers s lq" if "lq \<noteq> copy" for lq
      using a(6) that by simp
    show ?thesis
    proof (cases ok)
      case True
      with ih(5) dr v2 v3 w2 obtain cs' C' where
        s: "r = copy" "world s' = w" "list_inv s' copy ((cs @ [?zm]) @ cs')"
          "length cs' = length bs" "vals (nodes s') ((cs @ [?zm]) @ cs') = placed"
          "headers s' copy = Some C'" "dup C' = dup L" "free C' = free L" "match C' = match C2"
          "\<forall>x. x \<notin> set ((cs @ [?zm]) @ cs') \<longrightarrow> nodes s' x = nodes s2 x"
          "\<forall>lq. lq \<noteq> copy \<longrightarrow> headers s' lq = headers s2 lq"
          "cs' = map (\<lambda>j. zmalloc (Suc k + j)) [0..<length bs]"
        by auto
      have al: "?zm # cs' = map (\<lambda>j. zmalloc (k + j)) [0..<length (b # bs)]"
        unfolding s(12) using allocated_from_Suc [of zmalloc k "length bs", symmetric]
        by (simp del: upt_Suc)
      have fr: "\<forall>x. x \<notin> set (cs @ ?zm # cs') \<longrightarrow> nodes s' x = nodes s x"
      proof (intro allI impI)
        fix x assume x: "x \<notin> set (cs @ ?zm # cs')"
        then have "nodes s' x = nodes s2 x" using s(10) by simp
        also from x have "\<dots> = nodes s x" using a4 by simp
        finally show "nodes s' x = nodes s x" .
      qed
      have "\<exists>cs' C'. cs' = map (\<lambda>j. zmalloc (k + j)) [0..<length (b # bs)] \<and>
                     list_inv s' copy (cs @ cs') \<and> length cs' = length (b # bs) \<and>
                     vals (nodes s') (cs @ cs') = placed \<and>
                     headers s' copy = Some C' \<and> dup C' = dup L \<and> free C' = free L \<and>
                     match C' = match C \<and>
                     (\<forall>x. x \<notin> set (cs @ cs') \<longrightarrow> nodes s' x = nodes s x)"
        using s(3-9) C2(3) fr al
        by (intro exI [of _ "?zm # cs'"] exI [of _ C']) simp
      moreover have "\<forall>lq. lq \<noteq> copy \<longrightarrow> headers s' lq = headers s lq"
        using s(11) hdrs by simp
      ultimately show ?thesis
        using loop base s(1,2) True by (simp only: run') simp
    next
      case False
      with ih(5) dr v2 v3 w2 have
        s: "r = NULL" "world s' = release_all (free L) placed w"
          "\<forall>x. nodes s' x = (if x \<in> set (cs @ [?zm]) then None else nodes s2 x)"
          "headers s' = (headers s2)(copy := None)"
        by auto
      have n: "\<forall>x. nodes s' x = (if x \<in> set cs then None else nodes s x)"
      proof
        fix x
        show "nodes s' x = (if x \<in> set cs then None else nodes s x)"
          using s(3) [rule_format, of x] a4 [rule_format, of x] fz
          by (cases "x = ?zm"; cases "x \<in> set cs") simp_all
      qed
      have h: "headers s' = (headers s)(copy := None)"
        using s(4) hdrs by (auto simp: fun_eq_iff)
      show ?thesis
        using loop base s(1,2) n h False by (simp only: run') simp
    qed
  qed
qed

lemma dup_run_shallow:
  "\<forall>j<length vs. zmalloc (k + j) \<noteq> NULL \<Longrightarrow>
   dup_run None zmalloc k vs placed w = (True, placed @ vs, w)"
proof (induction vs arbitrary: k placed)
  case Nil
  then show ?case by simp
next
  case (Cons v vs)
  from Cons.prems [rule_format, of 0] have z: "zmalloc k \<noteq> NULL" by simp
  have "\<forall>j<length vs. zmalloc (Suc k + j) \<noteq> NULL"
    using Cons.prems by (auto dest: spec [of _ "Suc j" for j])
  from Cons.IH [OF this] z show ?case by simp
qed

lemma dup_run_allocates:
  "dup_run d zmalloc k vs placed w = (True, p, w') \<Longrightarrow> j < length vs \<Longrightarrow> zmalloc (k + j) \<noteq> NULL"
proof (induction vs arbitrary: k placed w j)
  case Nil
  then show ?case by simp
next
  case (Cons v vs)
  obtain v1 w1 where vw: "(case d of Some f \<Rightarrow> f v w | None \<Rightarrow> (v, w)) = (v1, w1)"
    by (cases "case d of Some f \<Rightarrow> f v w | None \<Rightarrow> (v, w)")
  from Cons.prems(1) vw have z: "zmalloc k \<noteq> NULL"
    and r: "dup_run d zmalloc (Suc k) vs (placed @ [v1]) w1 = (True, p, w')"
    by (auto split: if_splits)
  show ?case
  proof (cases j)
    case 0
    with z show ?thesis by simp
  next
    case (Suc i)
    with Cons.prems(2) have "i < length vs" by simp
    from Cons.IH [OF r this] Suc show ?thesis by simp
  qed
qed

lemma list_inv_vals_length: "list_inv s lp xs \<Longrightarrow> length (vals (nodes s) xs) = length xs"
  by (auto elim!: list_invD intro: vals_length)

text \<open>
  Claim C7. On a valid source list with node sequence \<open>xs\<close>, with \<^verbatim>\<open>zmalloc\<close>
  returning \<open>NULL\<close> or unallocated, pairwise different pointers, \<^verbatim>\<open>listDup\<close>
  returns, and its outcome is the one of \<open>dup_run\<close> on the source's values. On
  success the result is a new list: its header is the pointer of the first allocation,
  which was no header before the call, and its nodes are, in order, the pointers of the
  allocations that followed, one per node of the source; none of them was allocated
  before the call and none is a node of the source. The new list is valid and has the
  three callbacks of the source, the length of the source, and in order the values that
  \<open>dup_run\<close> placed: the results of the duplicate callback when one is installed, the
  source's own values otherwise. Outside the new nodes the node heap is the one of
  before, and so is every other header. On
  failure (the callback returned \<open>NULL\<close>, or an allocation failed) the result is
  \<open>NULL\<close>, every node of the copy and its header are freed, so nodes and headers are
  those of before, and the release callback has run on every value that was in the copy.
  In every case the source's header and nodes are unchanged.
\<close>

theorem C7_dup:
  assumes inv: "list_inv s orig xs" and L: "headers s orig = Some L"
    and f0: "zmalloc 0 = NULL \<or> headers s (zmalloc 0) = None"
    and fr: "\<forall>j<length xs. zmalloc (Suc j) \<noteq> NULL \<longrightarrow>
               nodes s (zmalloc (Suc j)) = None \<and> (\<forall>i<j. zmalloc (Suc i) \<noteq> zmalloc (Suc j))"
  shows "\<exists>s' r. listDup zmalloc s orig = Some (s', r) \<and>
           list_inv s' orig xs \<and> headers s' orig = Some L \<and>
           (\<forall>x. x \<in> set xs \<longrightarrow> nodes s' x = nodes s x) \<and> iters s' = iters s \<and>
           (case (if zmalloc 0 = NULL then (False, [], world s)
                  else dup_run (dup L) zmalloc 1 (vals (nodes s) xs) [] (world s)) of
              (ok, placed, w) \<Rightarrow>
                if ok then
                  r = zmalloc 0 \<and> r \<noteq> NULL \<and> headers s r = None \<and> world s' = w \<and>
                  (\<exists>cs C'. cs = map (\<lambda>j. zmalloc (Suc j)) [0..<length xs] \<and>
                     (\<forall>c. c \<in> set cs \<longrightarrow> c \<noteq> NULL \<and> nodes s c = None \<and> c \<notin> set xs) \<and>
                     list_inv s' r cs \<and> length cs = length xs \<and>
                     vals (nodes s') cs = placed \<and>
                     headers s' r = Some C' \<and> dup C' = dup L \<and> free C' = free L \<and>
                     match C' = match L \<and> len C' = len L \<and>
                     (\<forall>x. x \<notin> set cs \<longrightarrow> nodes s' x = nodes s x)) \<and>
                  (\<forall>lq. lq \<noteq> r \<longrightarrow> headers s' lq = headers s lq)
                else
                  r = NULL \<and> nodes s' = nodes s \<and> headers s' = headers s \<and>
                  world s' = release_all (free L) placed w) \<and>
           (dup L = None \<and> (\<forall>j<length xs. zmalloc (Suc j) \<noteq> NULL) \<longrightarrow>
              dup_run (dup L) zmalloc 1 (vals (nodes s) xs) [] (world s)
                = (True, vals (nodes s) xs, world s))"
proof -
  have shallow: "dup_run (dup L) zmalloc 1 (vals (nodes s) xs) [] (world s)
                = (True, vals (nodes s) xs, world s)"
    if "dup L = None \<and> (\<forall>j<length xs. zmalloc (Suc j) \<noteq> NULL)"
    using that dup_run_shallow [of "vals (nodes s) xs" zmalloc 1 "[]" "world s"]
      list_inv_vals_length [OF inv]
    by simp
  show ?thesis
  proof (cases "zmalloc 0 = NULL")
    case True
    then have "listDup zmalloc s orig = Some (s, NULL)"
      by (simp add: listDup_def listCreate_def)
    with True inv L shallow show ?thesis by simp
  next
    case False
    let ?copy = "zmalloc 0"
    from False f0 have fc: "headers s ?copy = None" by simp
    with L have ne: "orig \<noteq> ?copy" by auto
    let ?C = "\<lparr>head = NULL, tail = NULL, dup = dup L, free = free L, match = match L,
               len = 0\<rparr>"
    let ?s3 = "s\<lparr>headers := (headers s)(?copy \<mapsto> ?C)\<rparr>"
    let ?it = "\<lparr>it_next = head L, direction = AL_START_HEAD\<rparr>"
    have unfold: "listDup zmalloc s orig = listDup_loop zmalloc 1 ?copy ?it ?s3"
      using False L ne by (simp add: listDup_def listCreate_def upd_list_def rewind_it_def)
    have orig3: "list_inv ?s3 orig ([] @ xs)"
      using inv ne by (simp add: list_inv_headers_upd_other)
    have copy3: "list_inv ?s3 ?copy []" by (simp add: list_inv_def)
    have dj: "set [] \<inter> set ([] @ xs) = {}" by simp
    have L3: "headers ?s3 orig = Some L" using L ne by simp
    have C3: "headers ?s3 ?copy = Some ?C" "dup ?C = dup L" "free ?C = free L" by simp_all
    have it3: "it_next ?it = first_or xs NULL" "direction ?it = AL_START_HEAD"
      using inv L by (auto simp: list_inv_def)
    have fresh3: "\<forall>j<length xs. zmalloc (1 + j) \<noteq> NULL \<longrightarrow>
                  nodes ?s3 (zmalloc (1 + j)) = None \<and> (\<forall>i<j. zmalloc (1 + i) \<noteq> zmalloc (1 + j))"
      using fr by simp
    from listDup_loop_ok [OF orig3 copy3 ne False dj L3 C3 it3 fresh3] obtain s' r where
      lp: "listDup_loop zmalloc 1 ?copy ?it ?s3 = Some (s', r)"
        "headers s' orig = Some L" "\<forall>x. x \<in> set ([] @ xs) \<longrightarrow> nodes s' x = nodes ?s3 x"
        "iters s' = iters ?s3"
        "case dup_run (dup L) zmalloc 1 (vals (nodes ?s3) xs) (vals (nodes ?s3) []) (world ?s3) of
           (ok, placed, w) \<Rightarrow>
             if ok then
               r = ?copy \<and> world s' = w \<and>
               (\<exists>cs' C'. cs' = map (\<lambda>j. zmalloc (1 + j)) [0..<length xs] \<and>
                  list_inv s' ?copy ([] @ cs') \<and> length cs' = length xs \<and>
                  vals (nodes s') ([] @ cs') = placed \<and>
                  headers s' ?copy = Some C' \<and> dup C' = dup L \<and> free C' = free L \<and>
                  match C' = match ?C \<and>
                  (\<forall>x. x \<notin> set ([] @ cs') \<longrightarrow> nodes s' x = nodes ?s3 x)) \<and>
               (\<forall>lq. lq \<noteq> ?copy \<longrightarrow> headers s' lq = headers ?s3 lq)
             else
               r = NULL \<and> world s' = release_all (free L) placed w \<and>
               (\<forall>x. nodes s' x = (if x \<in> set [] then None else nodes ?s3 x)) \<and>
               headers s' = (headers ?s3)(?copy := None)"
      by (elim exE conjE) (rule that; assumption)
    obtain ok placed w where dr:
      "dup_run (dup L) zmalloc 1 (vals (nodes s) xs) [] (world s) = (ok, placed, w)"
      by (cases "dup_run (dup L) zmalloc 1 (vals (nodes s) xs) [] (world s)")
    have same: "\<forall>x. x \<in> set xs \<longrightarrow> nodes s' x = nodes s x" using lp(3) by simp
    have inv': "list_inv s' orig xs"
      using inv _ same
    proof (rule list_inv_frame)
      show "headers s' orig = headers s orig" using lp(2) L by simp
    qed
    have base: "listDup zmalloc s orig = Some (s', r)" "list_inv s' orig xs"
      "headers s' orig = Some L" "\<forall>x. x \<in> set xs \<longrightarrow> nodes s' x = nodes s x"
      "iters s' = iters s"
      using unfold lp(1,2,4) inv' same by simp_all
    show ?thesis
    proof (cases ok)
      case True
      with lp(5) dr obtain cs C' where
        s: "r = ?copy" "world s' = w" "list_inv s' ?copy cs" "length cs = length xs"
          "vals (nodes s') cs = placed" "headers s' ?copy = Some C'" "dup C' = dup L"
          "free C' = free L" "match C' = match L"
          "\<forall>x. x \<notin> set cs \<longrightarrow> nodes s' x = nodes s x"
          "\<forall>lq. lq \<noteq> ?copy \<longrightarrow> headers s' lq = headers s lq"
          "cs = map (\<lambda>j. zmalloc (Suc j)) [0..<length xs]"
        by auto
      from s(3,4,6) inv L have "unat (len C') = unat (len L)" by (simp add: list_inv_def)
      then have ln: "len C' = len L" by (simp only: word_unat_eq_iff)
      have new: "\<forall>c. c \<in> set cs \<longrightarrow> c \<noteq> NULL \<and> nodes s c = None \<and> c \<notin> set xs"
      proof (intro allI impI)
        fix c assume "c \<in> set cs"
        with s(12) obtain j where j: "j < length xs" "c = zmalloc (Suc j)" by auto
        from j(1) have "j < length (vals (nodes s) xs)"
          using list_inv_vals_length [OF inv] by simp
        moreover from dr True
        have "dup_run (dup L) zmalloc 1 (vals (nodes s) xs) [] (world s) = (True, placed, w)"
          by simp
        ultimately have "zmalloc (1 + j) \<noteq> NULL" by (rule dup_run_allocates [rotated])
        with j(2) have nz: "c \<noteq> NULL" by simp
        with fr j have fresh: "nodes s c = None" by simp
        from inv fresh have "c \<notin> set xs" by (rule list_inv_fresh)
        with nz fresh show "c \<noteq> NULL \<and> nodes s c = None \<and> c \<notin> set xs" by simp
      qed
      have "\<exists>cs C'. cs = map (\<lambda>j. zmalloc (Suc j)) [0..<length xs] \<and>
                     (\<forall>c. c \<in> set cs \<longrightarrow> c \<noteq> NULL \<and> nodes s c = None \<and> c \<notin> set xs) \<and>
                     list_inv s' r cs \<and> length cs = length xs \<and>
                     vals (nodes s') cs = placed \<and>
                     headers s' r = Some C' \<and> dup C' = dup L \<and> free C' = free L \<and>
                     match C' = match L \<and> len C' = len L \<and>
                     (\<forall>x. x \<notin> set cs \<longrightarrow> nodes s' x = nodes s x)"
        using s(1,3-10,12) ln new by (intro exI [of _ cs] exI [of _ C']) simp
      with base s(1,2,11) False True dr shallow fc show ?thesis by simp
    next
      case F: False
      with lp(5) dr have
        s: "r = NULL" "world s' = release_all (free L) placed w"
          "\<forall>x. nodes s' x = nodes s x" "headers s' = (headers ?s3)(?copy := None)"
        by auto
      from s(3) have n: "nodes s' = nodes s" by (simp add: fun_eq_iff)
      from s(4) fc have h: "headers s' = headers s" by (auto simp: fun_eq_iff)
      from base s(1,2) n h False F dr shallow show ?thesis by simp
    qed
  qed
qed

theorem C7_dup_witness:
  "list_inv demo_dup 1 [10, 11, 12] \<and>
   (\<exists>s'. listDup demo_zmalloc demo_dup 1 = Some (s', 50) \<and> list_inv s' 1 [10, 11, 12] \<and>
      headers demo_dup 50 = None \<and> nodes demo_dup 51 = None \<and> nodes demo_dup 52 = None \<and>
      nodes demo_dup 53 = None \<and> list_inv s' 50 [51, 52, 53] \<and>
      vals (nodes s') [51, 52, 53] = [1100, 1101, 1102] \<and> world s' = []) \<and>
   (\<exists>s'. listDup demo_zmalloc_fail demo_dup 1 = Some (s', NULL) \<and>
      list_inv s' 1 [10, 11, 12] \<and> nodes s' = nodes demo_dup \<and>
      headers s' = headers demo_dup \<and> world s' = [1100, 1101])"
proof -
  let ?L = "\<lparr>head = 10, tail = 12, dup = Some (\<lambda>v w. (v + 1000, w)),
      free = Some (\<lambda>v w. w @ [v]), match = None, len = 3 :: 64 word\<rparr> :: ptr list list_t"
  have inv: "list_inv demo_dup 1 [10, 11, 12]"
    by (simp add: demo_dup_def demo_def list_inv_def)
  have L: "headers demo_dup 1 = Some ?L"
    by (simp add: demo_dup_def)
  have v: "vals (nodes demo_dup) [10, 11, 12] = [100, 101, 102]" "world demo_dup = []"
    by (simp_all add: demo_dup_def demo_def)
  have z: "demo_zmalloc 0 = 50" "demo_zmalloc (Suc 0) = 51" "demo_zmalloc (Suc (Suc 0)) = 52"
    "demo_zmalloc (Suc (Suc (Suc 0))) = 53"
    "demo_zmalloc_fail 0 = 50" "demo_zmalloc_fail (Suc 0) = 51"
    "demo_zmalloc_fail (Suc (Suc 0)) = 52" "demo_zmalloc_fail (Suc (Suc (Suc 0))) = NULL"
    by (simp_all add: demo_zmalloc_def demo_zmalloc_fail_def)
  have f0: "demo_zmalloc 0 = NULL \<or> headers demo_dup (demo_zmalloc 0) = None"
    "demo_zmalloc_fail 0 = NULL \<or> headers demo_dup (demo_zmalloc_fail 0) = None"
    by (simp_all add: z demo_dup_def demo_def)
  have fr: "\<forall>j<length [10, 11, 12 :: ptr]. demo_zmalloc (Suc j) \<noteq> NULL \<longrightarrow>
               nodes demo_dup (demo_zmalloc (Suc j)) = None \<and>
               (\<forall>i<j. demo_zmalloc (Suc i) \<noteq> demo_zmalloc (Suc j))"
    "\<forall>j<length [10, 11, 12 :: ptr]. demo_zmalloc_fail (Suc j) \<noteq> NULL \<longrightarrow>
               nodes demo_dup (demo_zmalloc_fail (Suc j)) = None \<and>
               (\<forall>i<j. demo_zmalloc_fail (Suc i) \<noteq> demo_zmalloc_fail (Suc j))"
    by (auto simp: less_Suc_eq demo_zmalloc_def demo_zmalloc_fail_def demo_dup_def demo_def)
  have r1: "dup_run (dup ?L) demo_zmalloc 1 [100, 101, 102] [] ([] :: ptr list)
      = (True, [1100, 1101, 1102], [])"
    using z by simp
  have r2: "dup_run (dup ?L) demo_zmalloc_fail 1 [100, 101, 102] [] ([] :: ptr list)
      = (False, [1100, 1101], [])"
    using z by simp
  from C7_dup [OF inv L f0(1) fr(1)] obtain s' r where
    a: "listDup demo_zmalloc demo_dup 1 = Some (s', r)" "list_inv s' 1 [10, 11, 12]"
      "case (if demo_zmalloc 0 = NULL then (False, [], world demo_dup)
             else dup_run (dup ?L) demo_zmalloc 1 (vals (nodes demo_dup) [10, 11, 12]) []
                    (world demo_dup)) of
         (ok, placed, w) \<Rightarrow>
           if ok then
             r = demo_zmalloc 0 \<and> r \<noteq> NULL \<and> headers demo_dup r = None \<and> world s' = w \<and>
             (\<exists>cs C'. cs = map (\<lambda>j. demo_zmalloc (Suc j)) [0..<length [10, 11, 12 :: ptr]] \<and>
                (\<forall>c. c \<in> set cs \<longrightarrow>
                   c \<noteq> NULL \<and> nodes demo_dup c = None \<and> c \<notin> set [10, 11, 12]) \<and>
                list_inv s' r cs \<and> length cs = length [10, 11, 12 :: ptr] \<and>
                vals (nodes s') cs = placed \<and>
                headers s' r = Some C' \<and> dup C' = dup ?L \<and> free C' = free ?L \<and>
                match C' = match ?L \<and> len C' = len ?L \<and>
                (\<forall>x. x \<notin> set cs \<longrightarrow> nodes s' x = nodes demo_dup x)) \<and>
             (\<forall>lq. lq \<noteq> r \<longrightarrow> headers s' lq = headers demo_dup lq)
           else
             r = NULL \<and> nodes s' = nodes demo_dup \<and> headers s' = headers demo_dup \<and>
             world s' = release_all (free ?L) placed w"
    by (elim exE conjE) (rule that; assumption)
  have m: "map (\<lambda>j. demo_zmalloc (Suc j)) [0..<length [10, 11, 12 :: ptr]] = [51, 52, 53]"
    by (simp add: z)
  from a(3) have "r = 50 \<and> world s' = [] \<and> headers demo_dup 50 = None \<and>
      nodes demo_dup 51 = None \<and> nodes demo_dup 52 = None \<and> nodes demo_dup 53 = None \<and>
      list_inv s' r [51, 52, 53] \<and> vals (nodes s') [51, 52, 53] = [1100, 1101, 1102]"
    unfolding v r1 z m by auto
  with a(1,2) have w1: "\<exists>s'. listDup demo_zmalloc demo_dup 1 = Some (s', 50) \<and>
      list_inv s' 1 [10, 11, 12] \<and>
      headers demo_dup 50 = None \<and> nodes demo_dup 51 = None \<and> nodes demo_dup 52 = None \<and>
      nodes demo_dup 53 = None \<and> list_inv s' 50 [51, 52, 53] \<and>
      vals (nodes s') [51, 52, 53] = [1100, 1101, 1102] \<and> world s' = []"
    by blast
  from C7_dup [OF inv L f0(2) fr(2)] obtain s' r where
    b: "listDup demo_zmalloc_fail demo_dup 1 = Some (s', r)" "list_inv s' 1 [10, 11, 12]"
      "case (if demo_zmalloc_fail 0 = NULL then (False, [], world demo_dup)
             else dup_run (dup ?L) demo_zmalloc_fail 1 (vals (nodes demo_dup) [10, 11, 12]) []
                    (world demo_dup)) of
         (ok, placed, w) \<Rightarrow>
           if ok then
             r = demo_zmalloc_fail 0 \<and> r \<noteq> NULL \<and> headers demo_dup r = None \<and> world s' = w \<and>
             (\<exists>cs C'. cs = map (\<lambda>j. demo_zmalloc_fail (Suc j)) [0..<length [10, 11, 12 :: ptr]] \<and>
                (\<forall>c. c \<in> set cs \<longrightarrow>
                   c \<noteq> NULL \<and> nodes demo_dup c = None \<and> c \<notin> set [10, 11, 12]) \<and>
                list_inv s' r cs \<and> length cs = length [10, 11, 12 :: ptr] \<and>
                vals (nodes s') cs = placed \<and>
                headers s' r = Some C' \<and> dup C' = dup ?L \<and> free C' = free ?L \<and>
                match C' = match ?L \<and> len C' = len ?L \<and>
                (\<forall>x. x \<notin> set cs \<longrightarrow> nodes s' x = nodes demo_dup x)) \<and>
             (\<forall>lq. lq \<noteq> r \<longrightarrow> headers s' lq = headers demo_dup lq)
           else
             r = NULL \<and> nodes s' = nodes demo_dup \<and> headers s' = headers demo_dup \<and>
             world s' = release_all (free ?L) placed w"
    by (elim exE conjE) (rule that; assumption)
  from b(3) have "r = NULL \<and> nodes s' = nodes demo_dup \<and> headers s' = headers demo_dup \<and>
      world s' = [1100, 1101]"
    unfolding v r2 z by simp
  with b(1,2) have w2: "\<exists>s'. listDup demo_zmalloc_fail demo_dup 1 = Some (s', NULL) \<and>
      list_inv s' 1 [10, 11, 12] \<and> nodes s' = nodes demo_dup \<and>
      headers s' = headers demo_dup \<and> world s' = [1100, 1101]"
    by blast
  from inv w1 w2 show ?thesis by blast
qed

section \<open>The scenarios of the spec\<close>

text \<open>
  Start empty; add 1, 2, 3 at the tail; delete the node holding 2; rotate; add 0 at the
  head: the list holds 0, 3, 1, its length is 3, and index -1 is the node holding 1.
\<close>

lemma scenario_traversal:
  "\<exists>s L. run (init ()) scenario_ops = Some s \<and> headers s 1 = Some L \<and>
     walk next (nodes s) 3 (head L) = Some [13, 12, 10] \<and>
     vals (nodes s) [13, 12, 10] = [0, 3, 1] \<and> len L = 3 \<and>
     listIndex s 1 (- 1) = Some 10"
  by (simp add: scenario_ops_def eval_ops listIndex_def listIndex_loop.simps word_le_nat_alt)

text \<open>
  List A holds 1, 2 and list B holds 3, 4; after joining B onto A, A holds 1, 2, 3, 4 and
  has length 4, and B has length 0 and a null head.
\<close>

lemma scenario_join:
  "\<exists>s L M. run (init ()) scenario_join_ops = Some s \<and>
     headers s 1 = Some L \<and> headers s 2 = Some M \<and>
     walk next (nodes s) 4 (head L) = Some [10, 11, 20, 21] \<and>
     vals (nodes s) [10, 11, 20, 21] = [1, 2, 3, 4] \<and> len L = 4 \<and>
     len M = 0 \<and> head M = NULL"
  by (simp add: scenario_join_ops_def eval_ops)

end
